theory Spec2Isabelle
  imports Main "HOL-Library.Word"
begin

unbundle bit_operations_syntax

section \<open>Data model of \<open>windows/runner/utils.cpp\<close>\<close>

text \<open>
  The runner is built for 64-bit Windows: \<open>wchar_t\<close> is a 16-bit code unit, \<open>char\<close> a
  byte, \<open>size_t\<close> an unsigned 64-bit integer and \<open>int\<close> a 32-bit two's complement
  integer (read with \<open>sint\<close>).
\<close>

type_synonym wchar_t = "16 word"
type_synonym byte = "8 word"
type_synonym size_t = "64 word"
type_synonym c_int = "32 word"

text \<open>
  A \<open>const wchar_t *\<close> carries no length. A non-null pointer is modelled by the memory
  that can be read through it, \<open>s[i]\<close> being \<open>s i\<close>; \<open>nullptr\<close> is \<open>None\<close>.
\<close>

type_synonym wmem = "nat \<Rightarrow> wchar_t"
type_synonym wptr = "wmem option"

section \<open>The bounded length scan\<close>

text \<open>
  The loop of \<open>safe_wcsnlen\<close>: \<open>for (; i < max && s[i] != L'\0'; ++i) {}\<close>, started at
  \<open>i = 0\<close>. The counter is a \<open>size_t\<close> and \<open>++i\<close> is the wrapping addition of words.
\<close>

function safe_wcsnlen_loop :: "wmem \<Rightarrow> size_t \<Rightarrow> size_t \<Rightarrow> size_t" where
  "safe_wcsnlen_loop s mx i =
     (if i < mx \<and> s (unat i) \<noteq> 0 then safe_wcsnlen_loop s mx (i + 1) else i)"
  by pat_completeness auto

termination safe_wcsnlen_loop
proof (relation "measure (\<lambda>(s, mx, i). unat mx - unat i)")
  show "wf (measure (\<lambda>(s :: wmem, mx :: size_t, i :: size_t). unat mx - unat i))"
    by simp
next
  fix s :: wmem and mx i :: size_t
  assume "i < mx \<and> s (unat i) \<noteq> 0"
  then have "i < mx" ..
  then have "unat i < unat mx" and "unat (i + 1) = Suc (unat i)"
    by unat_arith+
  then show "((s, mx, i + 1), (s, mx, i)) \<in> measure (\<lambda>(s, mx, i). unat mx - unat i)"
    by simp
qed

declare safe_wcsnlen_loop.simps [simp del]

definition safe_wcsnlen :: "wptr \<Rightarrow> size_t \<Rightarrow> size_t" where
  "safe_wcsnlen s mx =
     (case s of
        None \<Rightarrow> 0
      | Some a \<Rightarrow> safe_wcsnlen_loop a mx 0)"

text \<open>\<open>static constexpr size_t kMaxUtf16Scan = 1U << 20\<close>: the shift is done on a 32-bit
  \<open>unsigned\<close> and the result widened to \<open>size_t\<close>.\<close>

definition kMaxUtf16Scan :: size_t where
  "kMaxUtf16Scan = ucast (push_bit 20 (1 :: 32 word))"

section \<open>The conversion primitive\<close>

text \<open>
  \<open>Utf8FromUtf16\<close> calls the Windows primitive twice, each time as
  \<open>::WideCharToMultiByte(CP_UTF8, WC_ERR_INVALID_CHARS, src, cch, dst, cb, nullptr, nullptr)\<close>.
  The primitive is not part of the repository, so the embedding of \<open>Utf8FromUtf16\<close>
  takes it as a parameter of this type: source memory, \<open>cchWideChar\<close>, the destination
  \<open>lpMultiByteStr\<close> (\<open>None\<close> for \<open>nullptr\<close>, otherwise the bytes now at the pointer) and
  \<open>cbMultiByte\<close>. It returns its \<open>int\<close> result and the bytes it stores through the
  destination pointer, from its first byte on.
\<close>

type_synonym wide_to_mb =
  "wmem \<Rightarrow> c_int \<Rightarrow> byte list option \<Rightarrow> c_int \<Rightarrow> c_int \<times> byte list"

text \<open>\<open>std::numeric_limits<int>::max()\<close>.\<close>

definition int_max :: c_int where
  "int_max = 0x7FFFFFFF"

text \<open>\<open>std::string::resize(n)\<close>: keep the first \<open>n\<close> bytes, pad with \<open>'\\0'\<close>.\<close>

definition resize :: "byte list \<Rightarrow> nat \<Rightarrow> byte list" where
  "resize str n = take n str @ replicate (n - length str) 0"

text \<open>
  The callee gets \<open>utf8_string.data()\<close>, not the string: what it stores there replaces
  the string's bytes from the first on, and the size of the string stays what
  \<open>resize\<close> made it. Bytes stored beyond that size are no part of the string.
\<close>

definition write_through :: "byte list \<Rightarrow> byte list \<Rightarrow> byte list" where
  "write_through str stored = take (length str) stored @ drop (length stored) str"

section \<open>\<open>Utf8FromUtf16\<close>\<close>

text \<open>
  The function has seven \<open>return\<close> statements, six of which hand back an empty
  string. The embedding records which one was taken, so that statements about the
  control flow (which guard fired, whether the primitive was called) can be made:
  \<open>Ret_null\<close> is line 65, \<open>Ret_empty\<close> line 72, \<open>Ret_unterminated\<close> line 76,
  \<open>Ret_overflow\<close> line 80, \<open>Ret_size_query\<close> line 94, \<open>Ret_no_bytes\<close> line 103 and
  \<open>Ret_converted\<close> line 105, the latter carrying \<open>converted_length\<close>.
\<close>

datatype exit_point =
    Ret_null
  | Ret_empty
  | Ret_unterminated
  | Ret_overflow
  | Ret_size_query
  | Ret_no_bytes
  | Ret_converted c_int

text \<open>
  \<open>W\<close> is the conversion primitive and \<open>max_size\<close> the value of
  \<open>std::string::max_size()\<close>, a constant of the standard library.
\<close>

definition Utf8FromUtf16_run :: "wide_to_mb \<Rightarrow> nat \<Rightarrow> wptr \<Rightarrow> exit_point \<times> byte list" where
  "Utf8FromUtf16_run W max_size utf16_string =
     (case utf16_string of
        None \<Rightarrow> (Ret_null, [])
      | Some src \<Rightarrow>
          let wlen = safe_wcsnlen utf16_string kMaxUtf16Scan in
          if wlen = 0 then (Ret_empty, [])
          else if wlen = kMaxUtf16Scan then (Ret_unterminated, [])
          else if wlen > scast int_max then (Ret_overflow, [])
          else
            let input_length = (ucast wlen :: c_int);
                target_length = fst (W src input_length None 0);
                utf8_string = []
            in if sint target_length \<le> 0 \<or> unat (scast target_length :: size_t) > max_size
               then (Ret_size_query, utf8_string)
               else
                 let utf8_string = resize utf8_string (unat (scast target_length :: size_t));
                     (converted_length, stored) =
                        W src input_length (Some utf8_string) target_length;
                     utf8_string = write_through utf8_string stored
                 in if converted_length = 0 then (Ret_no_bytes, [])
                    else (Ret_converted converted_length, utf8_string))"

definition Utf8FromUtf16 :: "wide_to_mb \<Rightarrow> nat \<Rightarrow> wptr \<Rightarrow> byte list" where
  "Utf8FromUtf16 W max_size utf16_string = snd (Utf8FromUtf16_run W max_size utf16_string)"

section \<open>A model of \<open>WideCharToMultiByte\<close>\<close>

text \<open>
  Modelled from the spec: the platform primitive \<open>WideCharToMultiByte\<close> is not in the
  repository. The spec describes it as converting exactly \<open>n\<close> input units to UTF-8
  under strict validation, signalling an error (result 0) on an invalid sequence
  instead of substituting a character, reporting the required length when asked for
  the size and the number of bytes written otherwise.

  \<open>wc_to_utf8\<close> is the conversion itself, one code unit (or surrogate pair) at a time,
  with the shifts and masks of a byte-level encoder; \<open>None\<close> is the error.
\<close>

fun wc_to_utf8 :: "wchar_t list \<Rightarrow> byte list option" where
  "wc_to_utf8 [] = Some []"
| "wc_to_utf8 (u # us) =
     (if u < 0x80 then
        map_option ((@) [ucast u]) (wc_to_utf8 us)
      else if u < 0x800 then
        map_option ((@) [0xC0 OR ucast (drop_bit 6 u), 0x80 OR ucast (u AND 0x3F)])
          (wc_to_utf8 us)
      else if 0xD800 \<le> u \<and> u \<le> 0xDBFF then
        (case us of
           [] \<Rightarrow> None
         | l # rest \<Rightarrow>
             if 0xDC00 \<le> l \<and> l \<le> 0xDFFF then
               (let c = (0x10000 :: 32 word)
                          + (push_bit 10 (ucast (u AND 0x3FF)) OR ucast (l AND 0x3FF))
                in map_option
                     ((@) [0xF0 OR ucast (drop_bit 18 c),
                           0x80 OR ucast (drop_bit 12 c AND 0x3F),
                           0x80 OR ucast (drop_bit 6 c AND 0x3F),
                           0x80 OR ucast (c AND 0x3F)])
                     (wc_to_utf8 rest))
             else None)
      else if 0xDC00 \<le> u \<and> u \<le> 0xDFFF then None
      else
        map_option
          ((@) [0xE0 OR ucast (drop_bit 12 u),
                0x80 OR ucast (drop_bit 6 u AND 0x3F),
                0x80 OR ucast (u AND 0x3F)])
          (wc_to_utf8 us))"

text \<open>
  Modelled from the spec: the call of \<open>WideCharToMultiByte\<close> itself, for \<open>CP_UTF8\<close> with
  \<open>WC_ERR_INVALID_CHARS\<close> and an explicit positive \<open>cchWideChar\<close> (the only way the runner
  calls it; a non-positive count is answered with the error result). It reads
  \<open>cchWideChar\<close> units. With \<open>cbMultiByte = 0\<close> it only reports the required size and
  stores nothing; otherwise it fails, storing nothing, when \<open>cbMultiByte\<close> is too small
  or the destination is \<open>nullptr\<close>, and else stores the bytes at the destination and
  reports how many it wrote.
\<close>

definition WideCharToMultiByte :: wide_to_mb where
  "WideCharToMultiByte lpWideCharStr cchWideChar lpMultiByteStr cbMultiByte =
     (if sint cchWideChar \<le> 0 then (0, [])
      else
        case wc_to_utf8 (map lpWideCharStr [0..<unat cchWideChar]) of
          None \<Rightarrow> (0, [])
        | Some bs \<Rightarrow>
            if unat int_max < length bs then (0, [])
            else if cbMultiByte = 0 then (of_nat (length bs), [])
            else if sint cbMultiByte < int (length bs) \<or> lpMultiByteStr = None then (0, [])
            else (of_nat (length bs), bs))"

section \<open>Reference definitions: UTF-16, UTF-8\<close>

text \<open>
  What the claims call valid characters, the standard encoding and decoding: the
  Unicode standard's definitions, written independently of the model above, on code
  points as natural numbers with \<open>div\<close> and \<open>mod\<close>. A code unit
  in \<open>D800..DBFF\<close> is a high surrogate, one in \<open>DC00..DFFF\<close> a low surrogate. A
  surrogate is unpaired unless it is a high surrogate directly followed by a low one,
  or a low surrogate directly preceded by a high one.
\<close>

definition is_high :: "wchar_t \<Rightarrow> bool" where
  "is_high u \<longleftrightarrow> 0xD800 \<le> unat u \<and> unat u \<le> 0xDBFF"

definition is_low :: "wchar_t \<Rightarrow> bool" where
  "is_low u \<longleftrightarrow> 0xDC00 \<le> unat u \<and> unat u \<le> 0xDFFF"

definition unpaired_at :: "wchar_t list \<Rightarrow> nat \<Rightarrow> bool" where
  "unpaired_at us i \<longleftrightarrow>
     (is_high (us ! i) \<and> \<not> (Suc i < length us \<and> is_low (us ! Suc i))) \<or>
     (is_low (us ! i) \<and> \<not> (0 < i \<and> is_high (us ! (i - 1))))"

definition well_formed_utf16 :: "wchar_t list \<Rightarrow> bool" where
  "well_formed_utf16 us \<longleftrightarrow> (\<forall>i < length us. \<not> unpaired_at us i)"

text \<open>The code points of a UTF-16 sequence; \<open>None\<close> when it is ill-formed.\<close>

fun utf16_decode :: "wchar_t list \<Rightarrow> nat list option" where
  "utf16_decode [] = Some []"
| "utf16_decode [u] = (if is_high u \<or> is_low u then None else Some [unat u])"
| "utf16_decode (u # l # us) =
     (if is_high u then
        (if is_low l
         then map_option ((#) (0x10000 + (unat u - 0xD800) * 0x400 + (unat l - 0xDC00)))
                (utf16_decode us)
         else None)
      else if is_low u then None
      else map_option ((#) (unat u)) (utf16_decode (l # us)))"

text \<open>The UTF-8 bytes of one code point (Unicode, table 3-6), and of a sequence.\<close>

definition utf8_encode_cp :: "nat \<Rightarrow> byte list" where
  "utf8_encode_cp c =
     (if c < 0x80 then [of_nat c]
      else if c < 0x800 then [of_nat (0xC0 + c div 0x40), of_nat (0x80 + c mod 0x40)]
      else if c < 0x10000 then
        [of_nat (0xE0 + c div 0x1000), of_nat (0x80 + c div 0x40 mod 0x40),
         of_nat (0x80 + c mod 0x40)]
      else
        [of_nat (0xF0 + c div 0x40000), of_nat (0x80 + c div 0x1000 mod 0x40),
         of_nat (0x80 + c div 0x40 mod 0x40), of_nat (0x80 + c mod 0x40)])"

definition utf8_encode :: "nat list \<Rightarrow> byte list" where
  "utf8_encode cs = concat (map utf8_encode_cp cs)"

text \<open>The standard UTF-8 encoding of a UTF-16 sequence.\<close>

definition standard_utf8 :: "wchar_t list \<Rightarrow> byte list option" where
  "standard_utf8 us = map_option utf8_encode (utf16_decode us)"

text \<open>
  The standard UTF-8 decoder: continuation bytes are \<open>80..BF\<close>; overlong forms,
  encoded surrogates and values above \<open>10FFFF\<close> are rejected.
\<close>

definition is_cont :: "byte \<Rightarrow> bool" where
  "is_cont b \<longleftrightarrow> 0x80 \<le> unat b \<and> unat b \<le> 0xBF"

fun utf8_decode :: "byte list \<Rightarrow> nat list option" where
  "utf8_decode [] = Some []"
| "utf8_decode (b # bs) =
     (if unat b < 0x80 then map_option ((#) (unat b)) (utf8_decode bs)
      else if 0xC2 \<le> unat b \<and> unat b \<le> 0xDF then
        (case bs of
           b1 # rest \<Rightarrow>
             if is_cont b1
             then map_option ((#) ((unat b - 0xC0) * 0x40 + (unat b1 - 0x80)))
                    (utf8_decode rest)
             else None
         | _ \<Rightarrow> None)
      else if 0xE0 \<le> unat b \<and> unat b \<le> 0xEF then
        (case bs of
           b1 # b2 # rest \<Rightarrow>
             (let c = (unat b - 0xE0) * 0x1000 + (unat b1 - 0x80) * 0x40 + (unat b2 - 0x80)
              in if is_cont b1 \<and> is_cont b2 \<and> 0x800 \<le> c \<and> \<not> (0xD800 \<le> c \<and> c \<le> 0xDFFF)
                 then map_option ((#) c) (utf8_decode rest)
                 else None)
         | _ \<Rightarrow> None)
      else if 0xF0 \<le> unat b \<and> unat b \<le> 0xF4 then
        (case bs of
           b1 # b2 # b3 # rest \<Rightarrow>
             (let c = (unat b - 0xF0) * 0x40000 + (unat b1 - 0x80) * 0x1000
                        + (unat b2 - 0x80) * 0x40 + (unat b3 - 0x80)
              in if is_cont b1 \<and> is_cont b2 \<and> is_cont b3 \<and> 0x10000 \<le> c \<and> c \<le> 0x10FFFF
                 then map_option ((#) c) (utf8_decode rest)
                 else None)
         | _ \<Rightarrow> None)
      else None)"

section \<open>Properties of the bounded scan\<close>

lemma safe_wcsnlen_loop_spec:
  "i \<le> mx \<Longrightarrow>
     i \<le> safe_wcsnlen_loop s mx i \<and> safe_wcsnlen_loop s mx i \<le> mx \<and>
     (\<forall>j. unat i \<le> j \<and> j < unat (safe_wcsnlen_loop s mx i) \<longrightarrow> s j \<noteq> 0) \<and>
     (safe_wcsnlen_loop s mx i < mx \<longrightarrow> s (unat (safe_wcsnlen_loop s mx i)) = 0)"
proof (induction s mx i rule: safe_wcsnlen_loop.induct)
  case (1 s mx i)
  show ?case
  proof (cases "i < mx \<and> s (unat i) \<noteq> 0")
    case True
    then have lt: "i < mx" and nz: "s (unat i) \<noteq> 0" by simp_all
    from lt have le: "i + 1 \<le> mx" by (rule inc_le)
    from lt have st: "unat (i + 1) = Suc (unat i)" by unat_arith
    have unf: "safe_wcsnlen_loop s mx i = safe_wcsnlen_loop s mx (i + 1)"
      using True by (subst safe_wcsnlen_loop.simps) simp
    note ih = "1.IH" [OF True le]
    have "i \<le> i + 1" using st by (simp add: word_le_nat_alt)
    moreover from ih have "i + 1 \<le> safe_wcsnlen_loop s mx (i + 1)" by (rule conjunct1)
    ultimately have a: "i \<le> safe_wcsnlen_loop s mx (i + 1)" by (rule order_trans)
    have b: "s j \<noteq> 0" if "unat i \<le> j" "j < unat (safe_wcsnlen_loop s mx (i + 1))" for j
    proof (cases "j = unat i")
      case True with nz show ?thesis by simp
    next
      case False
      with that st have "unat (i + 1) \<le> j" by simp
      with ih that show ?thesis by blast
    qed
    from a b ih show ?thesis unfolding unf by blast
  next
    case False
    then have unf: "safe_wcsnlen_loop s mx i = i"
      by (subst safe_wcsnlen_loop.simps) (simp only: if_False)
    from False "1.prems" show ?thesis unfolding unf by auto
  qed
qed

lemma length_takeWhile_upt:
  assumes "n \<le> m" and "\<forall>j<n. P (f j)" and "n < m \<longrightarrow> \<not> P (f n)"
  shows "length (takeWhile P (map f [0..<m])) = n"
proof -
  have split: "map f [0..<m] = map f [0..<n] @ map f [n..<m]"
    using assms(1) by (metis le_add_diff_inverse map_append upt_add_eq_append zero_le)
  have all: "\<forall>x\<in>set (map f [0..<n]). P x" using assms(2) by auto
  have rest: "takeWhile P (map f [n..<m]) = []"
  proof (cases "n < m")
    case True
    then have "map f [n..<m] = f n # map f [Suc n..<m]" by (simp add: upt_conv_Cons)
    with True assms(3) show ?thesis by simp
  next
    case False
    then show ?thesis by simp
  qed
  have "takeWhile P (map f [0..<n] @ map f [n..<m]) = map f [0..<n] @ takeWhile P (map f [n..<m])"
    by (rule takeWhile_append2) (use all in blast)
  then show ?thesis unfolding split using rest by simp
qed

lemma safe_wcsnlen_Some:
  "safe_wcsnlen (Some s) mx \<le> mx \<and>
   (\<forall>j < unat (safe_wcsnlen (Some s) mx). s j \<noteq> 0) \<and>
   (safe_wcsnlen (Some s) mx < mx \<longrightarrow> s (unat (safe_wcsnlen (Some s) mx)) = 0)"
  using safe_wcsnlen_loop_spec [of 0 mx s] by (simp add: safe_wcsnlen_def)

lemma safe_wcsnlen_le: "safe_wcsnlen p mx \<le> mx"
  using safe_wcsnlen_Some by (cases p) (simp_all add: safe_wcsnlen_def)

lemma unat_safe_wcsnlen:
  "unat (safe_wcsnlen (Some s) mx) = length (takeWhile (\<lambda>c. c \<noteq> 0) (map s [0..<unat mx]))"
proof -
  let ?n = "safe_wcsnlen (Some s) mx"
  have "length (takeWhile (\<lambda>c. c \<noteq> 0) (map s [0..<unat mx])) = unat ?n"
  proof (rule length_takeWhile_upt)
    show "unat ?n \<le> unat mx" using safe_wcsnlen_Some [of s mx] by (simp add: word_le_nat_alt)
    show "\<forall>j<unat ?n. s j \<noteq> 0" using safe_wcsnlen_Some [of s mx] by simp
    show "unat ?n < unat mx \<longrightarrow> \<not> s (unat ?n) \<noteq> 0"
      using safe_wcsnlen_Some [of s mx] by (simp add: word_less_nat_alt)
  qed
  then show ?thesis by simp
qed

lemma kMaxUtf16Scan_value: "kMaxUtf16Scan = 1048576"
  by (simp add: kMaxUtf16Scan_def)

lemma unat_kMaxUtf16Scan: "unat kMaxUtf16Scan = 1048576"
  by (simp add: kMaxUtf16Scan_value)

lemma scast_int_max: "(scast int_max :: size_t) = 0x7FFFFFFF"
  by (simp add: int_max_def)

text \<open>
  Claim C2. For every pointer and every bound \<open>mx\<close>: on \<open>nullptr\<close> the scan returns 0;
  otherwise it returns the number of elements before the first null element among
  the first \<open>mx\<close> ones, which is \<open>mx\<close> when there is none. The result lies between 0
  and \<open>mx\<close>.
\<close>

theorem safe_wcsnlen_counts:
  "safe_wcsnlen None mx = 0 \<and>
   unat (safe_wcsnlen (Some s) mx) = length (takeWhile (\<lambda>c. c \<noteq> 0) (map s [0..<unat mx])) \<and>
   0 \<le> safe_wcsnlen p mx \<and> safe_wcsnlen p mx \<le> mx"
  using unat_safe_wcsnlen [of s mx] safe_wcsnlen_le [of p mx] by (simp add: safe_wcsnlen_def)

section \<open>The guards of \<open>Utf8FromUtf16\<close>\<close>

text \<open>
  Claim C5. On \<open>nullptr\<close> the function returns the empty string, by its first
  \<open>return\<close>, whatever the primitive and the library's \<open>max_size\<close> are.
\<close>

theorem Utf8FromUtf16_null:
  "Utf8FromUtf16 W max_size None = [] \<and> Utf8FromUtf16_run W max_size None = (Ret_null, [])"
  by (simp add: Utf8FromUtf16_def Utf8FromUtf16_run_def)

lemma run_wlen_zero:
  "safe_wcsnlen (Some s) kMaxUtf16Scan = 0 \<Longrightarrow>
     Utf8FromUtf16_run W max_size (Some s) = (Ret_empty, [])"
  by (simp add: Utf8FromUtf16_run_def)

lemma safe_wcsnlen_first_null: "s 0 = 0 \<Longrightarrow> safe_wcsnlen (Some s) mx = 0"
  by (simp add: safe_wcsnlen_def safe_wcsnlen_loop.simps)

text \<open>
  Claim C6. When the bounded scan gives 0 the function returns the empty string (0
  bytes) by one of its first two \<open>return\<close>s, before the primitive is called, whatever
  the primitive is. An input whose first element is NUL is such an input.
\<close>

theorem Utf8FromUtf16_zero_length:
  "(safe_wcsnlen p kMaxUtf16Scan = 0 \<longrightarrow>
      Utf8FromUtf16 W max_size p = [] \<and>
      length (Utf8FromUtf16 W max_size p) = 0 \<and>
      fst (Utf8FromUtf16_run W max_size p) \<in> {Ret_null, Ret_empty}) \<and>
   (s 0 = 0 \<longrightarrow>
      safe_wcsnlen (Some s) kMaxUtf16Scan = 0 \<and>
      Utf8FromUtf16_run W max_size (Some s) = (Ret_empty, []))"
proof (intro conjI impI)
  assume z: "safe_wcsnlen p kMaxUtf16Scan = 0"
  show e: "Utf8FromUtf16 W max_size p = []"
    using z by (cases p) (simp_all add: Utf8FromUtf16_def Utf8FromUtf16_run_def)
  then show "length (Utf8FromUtf16 W max_size p) = 0" by simp
  show "fst (Utf8FromUtf16_run W max_size p) \<in> {Ret_null, Ret_empty}"
    using z by (cases p) (simp_all add: Utf8FromUtf16_run_def)
next
  assume "s 0 = 0"
  then show z: "safe_wcsnlen (Some s) kMaxUtf16Scan = 0" by (rule safe_wcsnlen_first_null)
  then show "Utf8FromUtf16_run W max_size (Some s) = (Ret_empty, [])" by (rule run_wlen_zero)
qed

theorem Utf8FromUtf16_zero_length_witness:
  "safe_wcsnlen (Some (\<lambda>i. 0)) kMaxUtf16Scan = 0 \<and>
   Utf8FromUtf16 WideCharToMultiByte 4294967295 (Some (\<lambda>i. 0)) = [] \<and>
   Utf8FromUtf16_run WideCharToMultiByte 4294967295 (Some (\<lambda>i. 0)) = (Ret_empty, [])"
proof -
  have "safe_wcsnlen (Some (\<lambda>i. 0)) kMaxUtf16Scan = 0"
    by (simp add: safe_wcsnlen_def safe_wcsnlen_loop.simps)
  then show ?thesis
    using Utf8FromUtf16_zero_length
      [of "Some (\<lambda>i. 0)" WideCharToMultiByte 4294967295 "\<lambda>i. 0"]
    by simp
qed

lemma safe_wcsnlen_no_null:
  assumes "\<forall>i < unat mx. s i \<noteq> 0"
  shows "safe_wcsnlen (Some s) mx = mx"
proof (rule ccontr)
  let ?n = "safe_wcsnlen (Some s) mx"
  assume "?n \<noteq> mx"
  with safe_wcsnlen_Some [of s mx] have lt: "?n < mx" by (simp add: order_less_le)
  with safe_wcsnlen_Some [of s mx] have "s (unat ?n) = 0" by simp
  moreover from lt have "unat ?n < unat mx" by (simp add: word_less_nat_alt)
  ultimately show False using assms by simp
qed

text \<open>
  Claim C3. \<open>kMaxUtf16Scan\<close> is 1,048,576, and an input with no null element among its
  first 1,048,576 elements yields the empty string by the \<open>return\<close> of line 76, before
  the primitive is called, whatever the primitive is.
\<close>

theorem Utf8FromUtf16_unterminated:
  assumes "\<forall>i < 1048576. s i \<noteq> 0"
  shows "unat kMaxUtf16Scan = 1048576 \<and>
         Utf8FromUtf16 W max_size (Some s) = [] \<and>
         Utf8FromUtf16_run W max_size (Some s) = (Ret_unterminated, [])"
proof -
  have "safe_wcsnlen (Some s) kMaxUtf16Scan = kMaxUtf16Scan"
    using assms by (intro safe_wcsnlen_no_null) (simp add: unat_kMaxUtf16Scan)
  then have "Utf8FromUtf16_run W max_size (Some s) = (Ret_unterminated, [])"
    by (simp add: Utf8FromUtf16_run_def kMaxUtf16Scan_value)
  then show ?thesis by (simp add: Utf8FromUtf16_def unat_kMaxUtf16Scan)
qed

theorem Utf8FromUtf16_unterminated_witness:
  "Utf8FromUtf16 WideCharToMultiByte 4294967295 (Some (\<lambda>i. 0x41)) = [] \<and>
   Utf8FromUtf16_run WideCharToMultiByte 4294967295 (Some (\<lambda>i. 0x41)) = (Ret_unterminated, [])"
proof -
  have "\<forall>i < 1048576. (\<lambda>i. 0x41 :: wchar_t) i \<noteq> 0" by simp
  then show ?thesis
    using Utf8FromUtf16_unterminated [of "\<lambda>i. 0x41" WideCharToMultiByte 4294967295] by simp
qed

lemma run_not_overflow: "fst (Utf8FromUtf16_run W max_size p) \<noteq> Ret_overflow"
proof (cases p)
  case None
  then show ?thesis by (simp add: Utf8FromUtf16_run_def)
next
  case (Some s)
  let ?n = "safe_wcsnlen (Some s) kMaxUtf16Scan"
  have "?n \<le> kMaxUtf16Scan" by (rule safe_wcsnlen_le)
  then have "\<not> ?n > scast int_max"
    by (simp add: scast_int_max kMaxUtf16Scan_value word_le_nat_alt word_less_nat_alt)
  then show ?thesis using Some
    by (simp add: Utf8FromUtf16_run_def Let_def split: prod.splits)
qed

lemma c_int_of_nat:
  assumes "n < 2 ^ 31"
  shows "unat (of_nat n :: c_int) = n" and "sint (of_nat n :: c_int) = int n"
proof -
  from assms have "n < 2 ^ 32" by simp
  then show "unat (of_nat n :: c_int) = n"
    by (simp add: unat_of_nat)
  have "sint (of_nat n :: c_int) = signed_take_bit 31 (int n)"
    by (simp add: signed_of_nat)
  also have "\<dots> = int n"
    using assms by (intro signed_take_bit_int_eq_self) simp_all
  finally show "sint (of_nat n :: c_int) = int n" .
qed

lemma input_length_exact:
  fixes wlen :: size_t
  assumes "wlen \<le> kMaxUtf16Scan"
  shows "unat (ucast wlen :: c_int) = unat wlen" and "sint (ucast wlen :: c_int) = int (unat wlen)"
proof -
  from assms have b: "unat wlen < 2 ^ 31"
    by (simp add: word_le_nat_alt unat_kMaxUtf16Scan)
  have e: "(ucast wlen :: c_int) = of_nat (unat wlen)" by simp
  show "unat (ucast wlen :: c_int) = unat wlen"
    unfolding e using b by (rule c_int_of_nat)
  show "sint (ucast wlen :: c_int) = int (unat wlen)"
    unfolding e using b by (rule c_int_of_nat)
qed

text \<open>
  Claim C10. The \<open>return\<close> of the overflow guard (line 80) is never taken. The scanned
  length is at most \<open>kMaxUtf16Scan = 2 ^ 20\<close>; when it differs from \<open>kMaxUtf16Scan\<close>, as
  it does in every call that reaches the guard, it is below \<open>2 ^ 20\<close>, not above
  \<open>INT_MAX\<close>, and its cast to \<open>int\<close> keeps its value.
\<close>

theorem Utf8FromUtf16_no_overflow:
  "fst (Utf8FromUtf16_run W max_size p) \<noteq> Ret_overflow \<and>
   safe_wcsnlen p kMaxUtf16Scan \<le> kMaxUtf16Scan \<and>
   unat kMaxUtf16Scan = 2 ^ 20 \<and>
   (safe_wcsnlen p kMaxUtf16Scan \<noteq> kMaxUtf16Scan \<longrightarrow>
      unat (safe_wcsnlen p kMaxUtf16Scan) < 2 ^ 20 \<and>
      \<not> safe_wcsnlen p kMaxUtf16Scan > scast int_max \<and>
      sint (ucast (safe_wcsnlen p kMaxUtf16Scan) :: c_int) = int (unat (safe_wcsnlen p kMaxUtf16Scan)))"
proof -
  let ?n = "safe_wcsnlen p kMaxUtf16Scan"
  have le: "?n \<le> kMaxUtf16Scan" by (rule safe_wcsnlen_le)
  have a: "\<not> ?n > scast int_max"
    using le by (simp add: scast_int_max kMaxUtf16Scan_value word_le_nat_alt word_less_nat_alt)
  have b: "unat ?n < 2 ^ 20" if "?n \<noteq> kMaxUtf16Scan"
  proof -
    from le that have "?n < kMaxUtf16Scan" by (simp add: order_less_le)
    then show ?thesis by (simp add: word_less_nat_alt unat_kMaxUtf16Scan)
  qed
  have c: "sint (ucast ?n :: c_int) = int (unat ?n)"
    using le by (rule input_length_exact)
  show ?thesis
    using run_not_overflow [of W max_size p] le a b c by (simp add: unat_kMaxUtf16Scan)
qed

theorem Utf8FromUtf16_no_overflow_witness:
  "safe_wcsnlen (Some (\<lambda>i. if i < 3 then 0x41 else 0)) kMaxUtf16Scan \<noteq> kMaxUtf16Scan \<and>
   unat (safe_wcsnlen (Some (\<lambda>i. if i < 3 then 0x41 else 0)) kMaxUtf16Scan) < 2 ^ 20 \<and>
   sint (ucast (safe_wcsnlen (Some (\<lambda>i. if i < 3 then 0x41 else 0)) kMaxUtf16Scan) :: c_int) = 3 \<and>
   fst (Utf8FromUtf16_run WideCharToMultiByte 4294967295 (Some (\<lambda>i. if i < 3 then 0x41 else 0)))
     \<noteq> Ret_overflow"
proof -
  have n: "safe_wcsnlen (Some (\<lambda>i. if i < 3 then 0x41 else 0)) kMaxUtf16Scan = 3"
    by (simp add: safe_wcsnlen_def safe_wcsnlen_loop.simps kMaxUtf16Scan_value)
  then have "safe_wcsnlen (Some (\<lambda>i. if i < 3 then 0x41 else 0)) kMaxUtf16Scan \<noteq> kMaxUtf16Scan"
    by (simp add: kMaxUtf16Scan_value)
  then show ?thesis
    using Utf8FromUtf16_no_overflow
      [of WideCharToMultiByte 4294967295 "Some (\<lambda>i. if i < 3 then 0x41 else 0)"]
    by (simp add: n)
qed

section \<open>Shifts and masks as arithmetic\<close>

lemma unat_and_mask: "unat (w AND mask k) = unat w mod 2 ^ k" for w :: "'a::len word"
proof -
  have "unat (w AND mask k) = unat (take_bit k w)" by (simp only: take_bit_eq_mask)
  also have "\<dots> = take_bit k (unat w)" by (simp only: unsigned_take_bit_eq)
  also have "\<dots> = unat w mod 2 ^ k" by (simp only: take_bit_eq_mod)
  finally show ?thesis .
qed

lemma unat_shift: "unat (drop_bit k w) = unat w div 2 ^ k" for w :: "'a::len word"
proof -
  have "unat (drop_bit k w) = drop_bit k (unat w)" by (rule unat_drop_bit_eq)
  also have "\<dots> = unat w div 2 ^ k" by (rule drop_bit_eq_div)
  finally show ?thesis .
qed

lemma mod_window:
  fixes n m q :: nat
  assumes "q * m \<le> n" and "n < q * m + m"
  shows "n mod m = n - q * m"
proof -
  obtain d where d: "n = d + q * m" and "d < m"
    using assms by (metis add.commute le_Suc_ex nat_add_left_cancel_less)
  then show ?thesis by simp
qed

lemma or_low_bits:
  "n < 2 ^ k \<Longrightarrow> push_bit k h OR (of_nat n :: 'a::len word) = push_bit k h + of_nat n"
proof -
  assume "n < 2 ^ k"
  then have "take_bit k n = n" by (simp only: take_bit_nat_eq_self)
  then have e: "(of_nat n :: 'a word) = take_bit k (of_nat n)"
    by (metis of_nat_take_bit)
  have "push_bit k h + take_bit k (of_nat n :: 'a word) = push_bit k h OR take_bit k (of_nat n)"
    by (rule disjunctive_add) (auto simp: bit_simps)
  with e show ?thesis by simp
qed

lemma lead_C0: "unat x = n \<Longrightarrow> n < 0x40 \<Longrightarrow> (0xC0 :: byte) OR ucast x = of_nat (0xC0 + n)"
  for x :: "'a::len word"
  using or_low_bits [of n 6 "3 :: byte"] by auto

lemma lead_80: "unat x = n \<Longrightarrow> n < 0x40 \<Longrightarrow> (0x80 :: byte) OR ucast x = of_nat (0x80 + n)"
  for x :: "'a::len word"
  using or_low_bits [of n 7 "1 :: byte"] by auto

lemma lead_E0: "unat x = n \<Longrightarrow> n < 0x10 \<Longrightarrow> (0xE0 :: byte) OR ucast x = of_nat (0xE0 + n)"
  for x :: "'a::len word"
  using or_low_bits [of n 5 "7 :: byte"] by auto

lemma lead_F0: "unat x = n \<Longrightarrow> n < 0x8 \<Longrightarrow> (0xF0 :: byte) OR ucast x = of_nat (0xF0 + n)"
  for x :: "'a::len word"
  using or_low_bits [of n 4 "15 :: byte"] by auto

lemma unat_low6: "unat (w AND 0x3F) = unat w mod 0x40" for w :: "'a::len word"
  using unat_and_mask [of w 6] by (simp add: mask_eq_exp_minus_1)

lemma unat_low10: "unat (w AND 0x3FF) = unat w mod 0x400" for w :: "'a::len word"
  using unat_and_mask [of w 10] by (simp add: mask_eq_exp_minus_1)

lemma lead_of_two:
  "u < 0x800 \<Longrightarrow> (0xC0 :: byte) OR ucast (drop_bit 6 u) = of_nat (0xC0 + unat u div 0x40)"
  for u :: wchar_t
proof (rule lead_C0)
  show "unat (drop_bit 6 u) = unat u div 0x40" by (simp add: unat_shift)
  assume "u < 0x800"
  then have "unat u < 0x800" by (simp add: word_less_nat_alt)
  then show "unat u div 0x40 < 0x40" by simp
qed

lemma trail_low: "(0x80 :: byte) OR ucast (u AND 0x3F) = of_nat (0x80 + unat u mod 0x40)"
  for u :: "'a::len word"
  by (rule lead_80) (simp_all add: unat_low6)

lemma lead_of_three:
  "(0xE0 :: byte) OR ucast (drop_bit 12 u) = of_nat (0xE0 + unat u div 0x1000)"
  for u :: wchar_t
proof (rule lead_E0)
  show "unat (drop_bit 12 u) = unat u div 0x1000" by (simp add: unat_shift)
  have "unat u < 2 ^ 16" using unsigned_less [of u] by simp
  then show "unat u div 0x1000 < 0x10" by simp
qed

lemma lead_of_four:
  "unat c < 0x110000 \<Longrightarrow>
     (0xF0 :: byte) OR ucast (drop_bit 18 c) = of_nat (0xF0 + unat c div 0x40000)"
  for c :: "32 word"
proof (rule lead_F0)
  show "unat (drop_bit 18 c) = unat c div 0x40000" by (simp add: unat_shift)
  assume "unat c < 0x110000"
  then show "unat c div 0x40000 < 0x8" by simp
qed

lemma ucast_via_unat: "unat x = n \<Longrightarrow> ucast x = (of_nat n :: 'b::len word)"
  for x :: "'a::len word"
  by auto

lemma pair_value:
  fixes u l :: wchar_t
  assumes "0xD800 \<le> u" "u \<le> 0xDBFF" "0xDC00 \<le> l" "l \<le> 0xDFFF"
  shows "unat ((0x10000 :: 32 word) + (push_bit 10 (ucast (u AND 0x3FF)) OR ucast (l AND 0x3FF)))
         = 0x10000 + (unat u - 0xD800) * 0x400 + (unat l - 0xDC00)"
proof -
  from assms have bu: "0xD800 \<le> unat u" "unat u \<le> 0xDBFF" and bl: "0xDC00 \<le> unat l" "unat l \<le> 0xDFFF"
    by (simp_all add: word_le_nat_alt)
  have hu: "unat u mod 0x400 = unat u - 0xD800" using bu mod_window [of 54 "0x400" "unat u"] by simp
  have hl: "unat l mod 0x400 = unat l - 0xDC00" using bl mod_window [of 55 "0x400" "unat l"] by simp
  have lo: "(ucast (l AND 0x3FF) :: 32 word) = of_nat (unat l - 0xDC00)"
    by (rule ucast_via_unat) (simp only: unat_low10 hl)
  have hi: "(ucast (u AND 0x3FF) :: 32 word) = of_nat (unat u - 0xD800)"
    by (rule ucast_via_unat) (simp only: unat_low10 hu)
  have lt: "unat l - 0xDC00 < 2 ^ 10" using bl by simp
  define a b where "a = unat u - 0xD800" and "b = unat l - 0xDC00"
  have "push_bit 10 (of_nat a :: 32 word) OR of_nat b = push_bit 10 (of_nat a) + of_nat b"
    using lt unfolding b_def by (rule or_low_bits)
  also have "\<dots> = of_nat (a * 0x400 + b)"
    by (simp add: push_bit_eq_mult)
  finally have "(0x10000 :: 32 word) + (push_bit 10 (of_nat a) OR of_nat b)
      = of_nat (0x10000 + a * 0x400 + b)"
    by simp
  then have eq: "of_nat (0x10000 + a * 0x400 + b)
      = (0x10000 :: 32 word) + (push_bit 10 (ucast (u AND 0x3FF)) OR ucast (l AND 0x3FF))"
    unfolding a_def b_def hi lo by (rule sym)
  have "0x10000 + a * 0x400 + b < 2 ^ LENGTH(32)"
    using bu bl unfolding a_def b_def by simp
  with eq have "unat ((0x10000 :: 32 word) + (push_bit 10 (ucast (u AND 0x3FF)) OR ucast (l AND 0x3FF)))
      = 0x10000 + a * 0x400 + b"
    by (rule of_nat_inverse)
  then show ?thesis unfolding a_def b_def .
qed

lemma unat_shift6: "unat (drop_bit 6 w) = unat w div 0x40" for w :: "'a::len word"
  using unat_shift [of 6 w] by simp

lemma unat_shift12: "unat (drop_bit 12 w) = unat w div 0x1000" for w :: "'a::len word"
  using unat_shift [of 12 w] by simp

section \<open>The model of the primitive computes the standard encoding\<close>

lemma is_high_word: "is_high u \<longleftrightarrow> 0xD800 \<le> u \<and> u \<le> 0xDBFF"
  by (simp add: is_high_def word_le_nat_alt)

lemma is_low_word: "is_low u \<longleftrightarrow> 0xDC00 \<le> u \<and> u \<le> 0xDFFF"
  by (simp add: is_low_def word_le_nat_alt)

lemma wc_unit1:
  assumes "u < 0x80"
  shows "wc_to_utf8 (u # us) = map_option ((@) (utf8_encode_cp (unat u))) (wc_to_utf8 us)"
proof -
  from assms have "unat u < 0x80" by (simp add: word_less_nat_alt)
  then have "utf8_encode_cp (unat u) = [ucast u]" by (simp add: utf8_encode_cp_def)
  with assms show ?thesis by simp
qed

lemma wc_unit2:
  assumes "\<not> u < 0x80" and "u < 0x800"
  shows "wc_to_utf8 (u # us) = map_option ((@) (utf8_encode_cp (unat u))) (wc_to_utf8 us)"
proof -
  from assms have "\<not> unat u < 0x80" "unat u < 0x800" by (simp_all add: word_less_nat_alt)
  then have "utf8_encode_cp (unat u) = [of_nat (0xC0 + unat u div 0x40), of_nat (0x80 + unat u mod 0x40)]"
    by (simp add: utf8_encode_cp_def)
  also have "\<dots> = [0xC0 OR ucast (drop_bit 6 u), 0x80 OR ucast (u AND 0x3F)]"
    using assms(2) by (simp only: lead_of_two trail_low)
  finally show ?thesis using assms by (simp only: wc_to_utf8.simps if_True if_False)
qed

lemma wc_unit3:
  assumes "\<not> u < 0x800" and "\<not> is_high u" and "\<not> is_low u"
  shows "wc_to_utf8 (u # us) = map_option ((@) (utf8_encode_cp (unat u))) (wc_to_utf8 us)"
proof -
  from assms(1) have "\<not> unat u < 0x80" "\<not> unat u < 0x800" by (simp_all add: word_less_nat_alt)
  moreover have "unat u < 0x10000" using unsigned_less [of u] by simp
  ultimately have "utf8_encode_cp (unat u) =
      [of_nat (0xE0 + unat u div 0x1000), of_nat (0x80 + unat u div 0x40 mod 0x40),
       of_nat (0x80 + unat u mod 0x40)]"
    by (simp add: utf8_encode_cp_def)
  also have "\<dots> = [0xE0 OR ucast (drop_bit 12 u), 0x80 OR ucast (drop_bit 6 u AND 0x3F),
       0x80 OR ucast (u AND 0x3F)]"
    by (simp only: lead_of_three trail_low unat_shift6)
  finally have e: "utf8_encode_cp (unat u) = [0xE0 OR ucast (drop_bit 12 u), 0x80 OR ucast (drop_bit 6 u AND 0x3F),
       0x80 OR ucast (u AND 0x3F)]" .
  have "\<not> u < 0x80" using assms(1) by (simp add: word_less_nat_alt)
  with assms show ?thesis unfolding e is_high_word is_low_word
    by (simp only: wc_to_utf8.simps if_True if_False)
qed

lemma wc_bmp:
  assumes "\<not> is_high u" and "\<not> is_low u"
  shows "wc_to_utf8 (u # us) = map_option ((@) (utf8_encode_cp (unat u))) (wc_to_utf8 us)"
  using assms wc_unit1 [of u us] wc_unit2 [of u us] wc_unit3 [of u us] by blast

lemma wc_pair:
  assumes "is_high u" and "is_low l"
  shows "wc_to_utf8 (u # l # us) =
           map_option ((@) (utf8_encode_cp (0x10000 + (unat u - 0xD800) * 0x400 + (unat l - 0xDC00))))
             (wc_to_utf8 us)"
proof -
  define c :: "32 word" where
    "c = 0x10000 + (push_bit 10 (ucast (u AND 0x3FF)) OR ucast (l AND 0x3FF))"
  from assms have w: "0xD800 \<le> u" "u \<le> 0xDBFF" "0xDC00 \<le> l" "l \<le> 0xDFFF"
    by (simp_all add: is_high_word is_low_word)
  then have uc: "unat c = 0x10000 + (unat u - 0xD800) * 0x400 + (unat l - 0xDC00)"
    unfolding c_def by (rule pair_value)
  from assms have "unat u \<le> 0xDBFF" "unat l \<le> 0xDFFF" by (simp_all add: is_high_def is_low_def)
  then have r: "0x10000 \<le> unat c" "unat c < 0x110000" unfolding uc by simp_all
  then have "utf8_encode_cp (unat c) =
      [of_nat (0xF0 + unat c div 0x40000), of_nat (0x80 + unat c div 0x1000 mod 0x40),
       of_nat (0x80 + unat c div 0x40 mod 0x40), of_nat (0x80 + unat c mod 0x40)]"
    by (simp add: utf8_encode_cp_def)
  also have "\<dots> = [0xF0 OR ucast (drop_bit 18 c), 0x80 OR ucast (drop_bit 12 c AND 0x3F),
       0x80 OR ucast (drop_bit 6 c AND 0x3F), 0x80 OR ucast (c AND 0x3F)]"
    using r(2) by (simp only: lead_of_four trail_low unat_shift6 unat_shift12)
  finally have e: "utf8_encode_cp (unat c) = [0xF0 OR ucast (drop_bit 18 c), 0x80 OR ucast (drop_bit 12 c AND 0x3F),
       0x80 OR ucast (drop_bit 6 c AND 0x3F), 0x80 OR ucast (c AND 0x3F)]" .
  from w have n: "\<not> u < 0x80" "\<not> u < 0x800" by (simp_all add: word_le_nat_alt word_less_nat_alt)
  have "wc_to_utf8 (u # l # us) =
      map_option ((@) [0xF0 OR ucast (drop_bit 18 c), 0x80 OR ucast (drop_bit 12 c AND 0x3F),
        0x80 OR ucast (drop_bit 6 c AND 0x3F), 0x80 OR ucast (c AND 0x3F)]) (wc_to_utf8 us)"
    unfolding c_def using w n
    by (simp only: wc_to_utf8.simps if_True if_False list.case Let_def simp_thms)
  then show ?thesis unfolding e [symmetric] uc .
qed

lemma wc_high_alone:
  assumes "is_high u" and "us = [] \<or> \<not> is_low (hd us)"
  shows "wc_to_utf8 (u # us) = None"
proof -
  from assms(1) have w: "0xD800 \<le> u" "u \<le> 0xDBFF" by (simp_all add: is_high_word)
  then have n: "\<not> u < 0x80" "\<not> u < 0x800" by (simp_all add: word_le_nat_alt word_less_nat_alt)
  show ?thesis
  proof (cases us)
    case Nil
    with w n show ?thesis by (simp only: wc_to_utf8.simps if_True if_False list.case simp_thms)
  next
    case (Cons l rest)
    with assms(2) have "\<not> (0xDC00 \<le> l \<and> l \<le> 0xDFFF)" by (simp add: is_low_word)
    with w n show ?thesis unfolding Cons
      by (simp only: wc_to_utf8.simps if_True if_False list.case simp_thms)
  qed
qed

lemma wc_low_alone:
  assumes "is_low u"
  shows "wc_to_utf8 (u # us) = None"
proof -
  from assms have w: "0xDC00 \<le> u" "u \<le> 0xDFFF" by (simp_all add: is_low_word)
  then have n: "\<not> u < 0x80" "\<not> u < 0x800" "\<not> (0xD800 \<le> u \<and> u \<le> 0xDBFF)"
    by (simp_all add: word_le_nat_alt word_less_nat_alt)
  with w show ?thesis by (simp only: wc_to_utf8.simps if_True if_False simp_thms)
qed

declare wc_to_utf8.simps(2) [simp del]

lemma high_not_low: "is_high u \<Longrightarrow> \<not> is_low u"
  by (simp add: is_high_def is_low_def)

lemma utf8_encode_Cons: "utf8_encode (c # cs) = utf8_encode_cp c @ utf8_encode cs"
  by (simp add: utf8_encode_def)

lemma wc_to_utf8_standard: "wc_to_utf8 us = standard_utf8 us"
proof (induction us rule: utf16_decode.induct)
  case 1
  show ?case by (simp add: standard_utf8_def utf8_encode_def)
next
  case (2 u)
  show ?case
  proof (cases "is_high u \<or> is_low u")
    case True
    then show ?thesis
      using wc_high_alone [of u "[]"] wc_low_alone [of u "[]"]
      by (auto simp: standard_utf8_def)
  next
    case False
    then show ?thesis
      using wc_bmp [of u "[]"] by (simp add: standard_utf8_def utf8_encode_def)
  qed
next
  case (3 u l us)
  show ?case
  proof (cases "is_high u")
    case True
    show ?thesis
    proof (cases "is_low l")
      case low: True
      with True "3.IH"(1) show ?thesis
        by (simp add: wc_pair standard_utf8_def option.map_comp comp_def utf8_encode_Cons)
    next
      case False
      with True show ?thesis
        using wc_high_alone [of u "l # us"] by (simp add: standard_utf8_def)
    qed
  next
    case nh: False
    show ?thesis
    proof (cases "is_low u")
      case True
      with nh show ?thesis using wc_low_alone [of u "l # us"] by (simp add: standard_utf8_def)
    next
      case False
      with nh "3.IH"(2) show ?thesis
        by (simp add: wc_bmp standard_utf8_def option.map_comp comp_def utf8_encode_Cons)
    qed
  qed
qed

section \<open>Well-formed UTF-16 and the length of its encoding\<close>

lemma unpaired_Suc_bmp:
  assumes "\<not> is_high u"
  shows "unpaired_at (u # us) (Suc j) = unpaired_at us j"
  using assms by (cases j) (simp_all add: unpaired_at_def)

lemma unpaired_Suc_Suc_pair:
  assumes "is_low l"
  shows "unpaired_at (u # l # us) (Suc (Suc j)) = unpaired_at us j"
  using assms high_not_low [of l] by (cases j) (auto simp: unpaired_at_def)

lemma unpaired_shift_bmp:
  assumes "\<not> is_high u" and "\<not> is_low u"
  shows "(\<exists>i<length (u # us). unpaired_at (u # us) i) \<longleftrightarrow> (\<exists>i<length us. unpaired_at us i)"
proof -
  have "\<not> unpaired_at (u # us) 0" using assms by (simp add: unpaired_at_def)
  then show ?thesis
    using assms(1) by (simp add: Ex_less_Suc2 unpaired_Suc_bmp)
qed

lemma unpaired_shift_pair:
  assumes "is_high u" and "is_low l"
  shows "(\<exists>i<length (u # l # us). unpaired_at (u # l # us) i) \<longleftrightarrow> (\<exists>i<length us. unpaired_at us i)"
proof -
  have "\<not> unpaired_at (u # l # us) 0"
    using assms high_not_low [of u] by (simp add: unpaired_at_def)
  moreover have "\<not> unpaired_at (u # l # us) (Suc 0)"
    using assms high_not_low [of l] by (auto simp: unpaired_at_def)
  ultimately show ?thesis
    using assms(2) by (simp add: Ex_less_Suc2 unpaired_Suc_Suc_pair)
qed

lemma utf16_decode_None_iff:
  "utf16_decode us = None \<longleftrightarrow> (\<exists>i<length us. unpaired_at us i)"
proof (induction us rule: utf16_decode.induct)
  case 1
  show ?case by simp
next
  case (2 u)
  show ?case by (auto simp: unpaired_at_def)
next
  case (3 u l us)
  show ?case
  proof (cases "is_high u")
    case True
    show ?thesis
    proof (cases "is_low l")
      case low: True
      from True low have "utf16_decode (u # l # us) = None \<longleftrightarrow> utf16_decode us = None"
        by simp
      also have "\<dots> \<longleftrightarrow> (\<exists>i<length us. unpaired_at us i)"
        using True low by (rule "3.IH"(1))
      also have "\<dots> \<longleftrightarrow> (\<exists>i<length (u # l # us). unpaired_at (u # l # us) i)"
        using True low by (rule unpaired_shift_pair [symmetric])
      finally show ?thesis .
    next
      case False
      with True have "unpaired_at (u # l # us) 0" by (simp add: unpaired_at_def)
      then have "\<exists>i<length (u # l # us). unpaired_at (u # l # us) i" by auto
      with True False show ?thesis by simp
    qed
  next
    case nh: False
    show ?thesis
    proof (cases "is_low u")
      case True
      then have "unpaired_at (u # l # us) 0" by (simp add: unpaired_at_def)
      then have "\<exists>i<length (u # l # us). unpaired_at (u # l # us) i" by auto
      with nh True show ?thesis by simp
    next
      case False
      from nh False have "utf16_decode (u # l # us) = None \<longleftrightarrow> utf16_decode (l # us) = None"
        by simp
      also have "\<dots> \<longleftrightarrow> (\<exists>i<length (l # us). unpaired_at (l # us) i)"
        using nh False by (rule "3.IH"(2))
      also have "\<dots> \<longleftrightarrow> (\<exists>i<length (u # l # us). unpaired_at (u # l # us) i)"
        using nh False by (rule unpaired_shift_bmp [symmetric])
      finally show ?thesis .
    qed
  qed
qed

lemma well_formed_iff_decodes: "well_formed_utf16 us \<longleftrightarrow> utf16_decode us \<noteq> None"
  by (auto simp: well_formed_utf16_def utf16_decode_None_iff)

lemma length_utf8_encode_cp:
  "0 < length (utf8_encode_cp c)" "length (utf8_encode_cp c) \<le> 4"
  "c < 0x10000 \<Longrightarrow> length (utf8_encode_cp c) \<le> 3"
  by (simp_all add: utf8_encode_cp_def)

lemma utf16_decode_length:
  "utf16_decode us = Some cs \<Longrightarrow>
     length (utf8_encode cs) \<le> 3 * length us \<and> (us \<noteq> [] \<longrightarrow> utf8_encode cs \<noteq> [])"
proof (induction us arbitrary: cs rule: utf16_decode.induct)
  case 1
  then show ?case by (simp add: utf8_encode_def)
next
  case (2 u)
  have "unat u < 0x10000" using unsigned_less [of u] by simp
  then have "length (utf8_encode_cp (unat u)) \<le> 3" by (rule length_utf8_encode_cp)
  moreover have "utf8_encode_cp (unat u) \<noteq> []" using length_utf8_encode_cp(1) [of "unat u"] by auto
  ultimately show ?case using 2 by (auto simp: utf8_encode_def split: if_splits)
next
  case (3 u l us)
  show ?case
  proof (cases "is_high u")
    case True
    with "3.prems" obtain cs' where low: "is_low l" and d: "utf16_decode us = Some cs'"
      and cs: "cs = (0x10000 + (unat u - 0xD800) * 0x400 + (unat l - 0xDC00)) # cs'"
      by (auto split: if_splits)
    from "3.IH"(1) [OF True low d] have "length (utf8_encode cs') \<le> 3 * length us" by simp
    moreover have "length (utf8_encode_cp (0x10000 + (unat u - 0xD800) * 0x400 + (unat l - 0xDC00))) \<le> 4"
      by (rule length_utf8_encode_cp)
    moreover have "utf8_encode_cp (0x10000 + (unat u - 0xD800) * 0x400 + (unat l - 0xDC00)) \<noteq> []"
      using length_utf8_encode_cp(1) [of "0x10000 + (unat u - 0xD800) * 0x400 + (unat l - 0xDC00)"] by auto
    ultimately show ?thesis unfolding cs by (simp add: utf8_encode_Cons)
  next
    case False
    with "3.prems" obtain cs' where nl: "\<not> is_low u" and d: "utf16_decode (l # us) = Some cs'"
      and cs: "cs = unat u # cs'"
      by (auto split: if_splits)
    from "3.IH"(2) [OF False nl d] have "length (utf8_encode cs') \<le> 3 * length (l # us)" by simp
    moreover have "unat u < 0x10000" using unsigned_less [of u] by simp
    then have "length (utf8_encode_cp (unat u)) \<le> 3" by (rule length_utf8_encode_cp)
    moreover have "utf8_encode_cp (unat u) \<noteq> []" using length_utf8_encode_cp(1) [of "unat u"] by auto
    ultimately show ?thesis unfolding cs by (simp add: utf8_encode_Cons)
  qed
qed

lemma standard_utf8_length:
  assumes "standard_utf8 us = Some bs"
  shows "length bs \<le> 3 * length us" and "us \<noteq> [] \<Longrightarrow> bs \<noteq> []"
  using assms utf16_decode_length [of us] by (auto simp: standard_utf8_def)

section \<open>The two calls of the primitive\<close>

lemma c_int_to_size_t:
  assumes "m < 2 ^ 31"
  shows "unat (scast (of_nat m :: c_int) :: size_t) = m"
proof -
  have "(scast (of_nat m :: c_int) :: size_t) = word_of_int (sint (of_nat m :: c_int))"
    by (rule scast_eq)
  also have "\<dots> = of_nat m" using assms by (simp add: c_int_of_nat)
  finally have "(scast (of_nat m :: c_int) :: size_t) = of_nat m" .
  moreover from assms have "m < 2 ^ 64" by simp
  ultimately show ?thesis by (simp add: unat_of_nat)
qed

lemma c_int_of_nat_eq_0:
  assumes "m < 2 ^ 31"
  shows "(of_nat m :: c_int) = 0 \<longleftrightarrow> m = 0"
proof
  assume "(of_nat m :: c_int) = 0"
  then have "unat (of_nat m :: c_int) = 0" by simp
  with c_int_of_nat(1) [OF assms] show "m = 0" by simp
next
  assume "m = 0"
  then show "(of_nat m :: c_int) = 0" by simp
qed


lemma write_through_exact: "length stored = length str \<Longrightarrow> write_through str stored = stored"
  by (simp add: write_through_def)

lemma resize_empty: "resize [] n = replicate n 0"
  by (simp add: resize_def)

lemma run_second_pass:
  assumes scan: "safe_wcsnlen (Some s) kMaxUtf16Scan = wlen" "wlen \<noteq> 0" "wlen \<noteq> kMaxUtf16Scan"
    and first: "fst (W s (ucast wlen) None 0) = target_length" "0 < sint target_length"
      "unat (scast target_length :: size_t) \<le> max_size"
    and second: "W s (ucast wlen) (Some (replicate (unat (scast target_length :: size_t)) 0))
                   target_length = (converted_length, stored)"
  shows "Utf8FromUtf16_run W max_size (Some s) =
           (if converted_length = 0 then (Ret_no_bytes, [])
            else (Ret_converted converted_length,
                  write_through (replicate (unat (scast target_length :: size_t)) 0) stored))"
proof -
  have "wlen \<le> kMaxUtf16Scan" unfolding scan(1) [symmetric] by (rule safe_wcsnlen_le)
  then have "\<not> wlen > scast int_max"
    by (simp add: scast_int_max kMaxUtf16Scan_value word_le_nat_alt word_less_nat_alt)
  with scan first second show ?thesis
    by (simp add: Utf8FromUtf16_run_def Let_def resize_empty)
qed

lemma primitive_rejects:
  assumes "0 < n" and "n < 2 ^ 31" and "standard_utf8 (map s [0..<n]) = None"
  shows "WideCharToMultiByte s (of_nat n) dst cb = (0, [])"
  using assms by (simp add: WideCharToMultiByte_def c_int_of_nat wc_to_utf8_standard)

lemma primitive_size_query:
  assumes "0 < n" and "n < 2 ^ 20" and "standard_utf8 (map s [0..<n]) = Some bs"
  shows "WideCharToMultiByte s (of_nat n) dst 0 = (of_nat (length bs), [])"
proof -
  from assms(2) have n31: "n < 2 ^ 31" by simp
  have "length bs \<le> 3 * n" using standard_utf8_length(1) [OF assms(3)] by simp
  with assms(2) have "length bs < 2 ^ 31" by simp
  then have "\<not> unat int_max < length bs" by (simp add: int_max_def)
  then show ?thesis
    using assms(1,3) n31 by (simp add: WideCharToMultiByte_def c_int_of_nat wc_to_utf8_standard)
qed

lemma primitive_convert:
  assumes "0 < n" and "n < 2 ^ 20" and "standard_utf8 (map s [0..<n]) = Some bs"
  shows "WideCharToMultiByte s (of_nat n) (Some buf) (of_nat (length bs)) = (of_nat (length bs), bs)"
proof -
  from assms(2) have n31: "n < 2 ^ 31" by simp
  have "length bs \<le> 3 * n" using standard_utf8_length(1) [OF assms(3)] by simp
  with assms(2) have b31: "length bs < 2 ^ 31" by simp
  then have a: "\<not> unat int_max < length bs" by (simp add: int_max_def)
  from assms(1) have "map s [0..<n] \<noteq> []" by simp
  then have "bs \<noteq> []" using standard_utf8_length(2) [OF assms(3)] by simp
  then have b: "(of_nat (length bs) :: c_int) \<noteq> 0" using b31 by (simp add: c_int_of_nat_eq_0)
  have c: "sint (of_nat (length bs) :: c_int) = int (length bs)" using b31 by (rule c_int_of_nat)
  show ?thesis
    using assms(1,3) n31 a b c
    by (simp add: WideCharToMultiByte_def c_int_of_nat wc_to_utf8_standard)
qed

lemma run_terminated:
  assumes n: "unat (safe_wcsnlen (Some s) kMaxUtf16Scan) = n" and "0 < n" and "n < 2 ^ 20"
  shows "Utf8FromUtf16_run WideCharToMultiByte max_size (Some s) =
     (case standard_utf8 (map s [0..<n]) of
        None \<Rightarrow> (Ret_size_query, [])
      | Some bs \<Rightarrow>
          if max_size < length bs then (Ret_size_query, [])
          else (Ret_converted (of_nat (length bs)), bs))"
proof -
  let ?wlen = "safe_wcsnlen (Some s) kMaxUtf16Scan"
  have le: "?wlen \<le> kMaxUtf16Scan" by (rule safe_wcsnlen_le)
  have w0: "?wlen \<noteq> 0" using n assms(2) by auto
  have wk: "?wlen \<noteq> kMaxUtf16Scan" using n assms(3) unat_kMaxUtf16Scan by auto
  have wi: "\<not> ?wlen > scast int_max"
    using le by (simp add: scast_int_max kMaxUtf16Scan_value word_le_nat_alt word_less_nat_alt)
  have il: "(ucast ?wlen :: c_int) = of_nat n" using n by auto
  from assms(3) have n31: "n < 2 ^ 31" by simp
  show ?thesis
  proof (cases "standard_utf8 (map s [0..<n])")
    case None
    have "WideCharToMultiByte s (of_nat n) None 0 = (0, [])"
      using assms(2) n31 None by (rule primitive_rejects)
    then show ?thesis using None w0 wk wi
      by (simp add: Utf8FromUtf16_run_def il Let_def)
  next
    case (Some bs)
    have q: "WideCharToMultiByte s (of_nat n) None 0 = (of_nat (length bs), [])"
      using assms(2,3) Some by (rule primitive_size_query)
    have "length bs \<le> 3 * n" using standard_utf8_length(1) [OF Some] by simp
    with assms(3) have b31: "length bs < 2 ^ 31" by simp
    from assms(2) have "map s [0..<n] \<noteq> []" by simp
    then have ne: "bs \<noteq> []" using standard_utf8_length(2) [OF Some] by simp
    have t0: "(of_nat (length bs) :: c_int) \<noteq> 0" using ne b31 by (simp add: c_int_of_nat_eq_0)
    have ts: "sint (of_nat (length bs) :: c_int) = int (length bs)" using b31 by (rule c_int_of_nat)
    have tz: "unat (scast (of_nat (length bs) :: c_int) :: size_t) = length bs"
      using b31 by (rule c_int_to_size_t)
    show ?thesis
    proof (cases "max_size < length bs")
      case True
      then show ?thesis using Some w0 wk wi
        by (simp add: Utf8FromUtf16_run_def il Let_def q ts tz)
    next
      case False
      have c: "WideCharToMultiByte s (ucast ?wlen)
                 (Some (replicate (unat (scast (of_nat (length bs) :: c_int) :: size_t)) 0))
                 (of_nat (length bs)) = (of_nat (length bs), bs)"
        unfolding il using assms(2,3) Some by (rule primitive_convert)
      have "Utf8FromUtf16_run WideCharToMultiByte max_size (Some s) =
              (if (of_nat (length bs) :: c_int) = 0 then (Ret_no_bytes, [])
               else (Ret_converted (of_nat (length bs)),
                     write_through (replicate (unat (scast (of_nat (length bs) :: c_int) :: size_t)) 0) bs))"
        using refl w0 wk _ _ _ c
      proof (rule run_second_pass)
        show "fst (WideCharToMultiByte s (ucast ?wlen) None 0) = of_nat (length bs)"
          unfolding il by (simp add: q)
        show "0 < sint (of_nat (length bs) :: c_int)" using ne by (simp add: ts)
        show "unat (scast (of_nat (length bs) :: c_int) :: size_t) \<le> max_size"
          using False by (simp add: tz)
      qed
      then show ?thesis using Some False t0 by (simp add: tz write_through_exact)
    qed
  qed
qed

lemma scan_terminated:
  assumes "L < 2 ^ 20" and "\<forall>i<L. s i \<noteq> 0" and "s L = 0"
  shows "unat (safe_wcsnlen (Some s) kMaxUtf16Scan) = L"
proof -
  have a: "L \<le> unat kMaxUtf16Scan" using assms(1) by (simp only: unat_kMaxUtf16Scan) simp
  have b: "L < unat kMaxUtf16Scan \<longrightarrow> \<not> s L \<noteq> 0" using assms(3) by simp
  have "length (takeWhile (\<lambda>c. c \<noteq> 0) (map s [0..<unat kMaxUtf16Scan])) = L"
    using a assms(2) b by (rule length_takeWhile_upt)
  then show ?thesis by (simp only: unat_safe_wcsnlen)
qed

section \<open>Conversion of terminated strings\<close>

lemma scan_zero:
  assumes "s 0 = 0"
  shows "Utf8FromUtf16_run W max_size (Some s) = (Ret_empty, [])"
  using assms by (intro run_wlen_zero safe_wcsnlen_first_null)

lemma run_well_formed:
  assumes "L < 2 ^ 20" and "\<forall>i<L. s i \<noteq> 0" and "s L = 0"
    and "standard_utf8 (map s [0..<L]) = Some bs" and "length bs \<le> max_size"
  shows "Utf8FromUtf16_run WideCharToMultiByte max_size (Some s) =
           (if L = 0 then Ret_empty else Ret_converted (of_nat (length bs)), bs)"
proof (cases "L = 0")
  case True
  with assms(3,4) show ?thesis
    by (simp add: scan_zero standard_utf8_def utf8_encode_def)
next
  case False
  have "unat (safe_wcsnlen (Some s) kMaxUtf16Scan) = L"
    using assms(1-3) by (rule scan_terminated)
  then have "Utf8FromUtf16_run WideCharToMultiByte max_size (Some s) =
     (case standard_utf8 (map s [0..<L]) of
        None \<Rightarrow> (Ret_size_query, [])
      | Some bs \<Rightarrow>
          if max_size < length bs then (Ret_size_query, [])
          else (Ret_converted (of_nat (length bs)), bs))"
    using False assms(1) by (intro run_terminated) simp_all
  with assms(4,5) False show ?thesis by simp
qed

lemma run_ill_formed:
  assumes "L < 2 ^ 20" and "\<forall>i<L. s i \<noteq> 0" and "s L = 0"
    and "standard_utf8 (map s [0..<L]) = None"
  shows "Utf8FromUtf16_run WideCharToMultiByte max_size (Some s) = (Ret_size_query, [])"
proof -
  have "L \<noteq> 0"
  proof
    assume "L = 0"
    with assms(4) show False by (simp add: standard_utf8_def)
  qed
  moreover have "unat (safe_wcsnlen (Some s) kMaxUtf16Scan) = L"
    using assms(1-3) by (rule scan_terminated)
  ultimately have "Utf8FromUtf16_run WideCharToMultiByte max_size (Some s) =
     (case standard_utf8 (map s [0..<L]) of
        None \<Rightarrow> (Ret_size_query, [])
      | Some bs \<Rightarrow>
          if max_size < length bs then (Ret_size_query, [])
          else (Ret_converted (of_nat (length bs)), bs))"
    using assms(1) by (intro run_terminated) simp_all
  with assms(4) show ?thesis by simp
qed

lemma standard_utf8_well_formed:
  "well_formed_utf16 us \<Longrightarrow> \<exists>bs. standard_utf8 us = Some bs"
  by (auto simp: well_formed_iff_decodes standard_utf8_def)

text \<open>
  Claim C1. Let the wide string at \<open>s\<close> have length \<open>L\<close> below \<open>kMaxUtf16Scan\<close>: its
  first \<open>L\<close> elements are not null and element \<open>L\<close> is the terminator. If these \<open>L\<close>
  elements are well-formed UTF-16 (no unpaired surrogate) and the string type can hold
  \<open>3 * L\<close> bytes, \<open>Utf8FromUtf16\<close> returns exactly their standard UTF-8 encoding. In
  particular a memory holding \<open>A\<close>, \<open>B\<close>, \<open>C\<close>, NUL yields the three bytes \<open>41 42 43\<close>
  and nothing after them. The primitive is the model \<open>WideCharToMultiByte\<close>.
\<close>

theorem Utf8FromUtf16_standard_encoding:
  "(L < unat kMaxUtf16Scan \<and> (\<forall>i<L. s i \<noteq> 0) \<and> s L = 0 \<and>
    well_formed_utf16 (map s [0..<L]) \<and> 3 * L \<le> max_size \<longrightarrow>
      standard_utf8 (map s [0..<L]) = Some (Utf8FromUtf16 WideCharToMultiByte max_size (Some s))) \<and>
   (t 0 = 0x41 \<and> t (Suc 0) = 0x42 \<and> t 2 = 0x43 \<and> t 3 = 0 \<and> 3 \<le> max_size \<longrightarrow>
      Utf8FromUtf16 WideCharToMultiByte max_size (Some t) = [0x41, 0x42, 0x43])"
proof (intro conjI impI)
  assume h: "L < unat kMaxUtf16Scan \<and> (\<forall>i<L. s i \<noteq> 0) \<and> s L = 0 \<and>
    well_formed_utf16 (map s [0..<L]) \<and> 3 * L \<le> max_size"
  then have L: "L < 2 ^ 20" by (simp add: unat_kMaxUtf16Scan)
  from h obtain bs where bs: "standard_utf8 (map s [0..<L]) = Some bs"
    using standard_utf8_well_formed by blast
  have "length bs \<le> 3 * L" using standard_utf8_length(1) [OF bs] by simp
  with h have "length bs \<le> max_size" by simp
  with L h bs have "Utf8FromUtf16_run WideCharToMultiByte max_size (Some s) =
           (if L = 0 then Ret_empty else Ret_converted (of_nat (length bs)), bs)"
    by (intro run_well_formed) simp_all
  then show "standard_utf8 (map s [0..<L]) = Some (Utf8FromUtf16 WideCharToMultiByte max_size (Some s))"
    by (simp add: bs Utf8FromUtf16_def)
next
  assume h: "t 0 = 0x41 \<and> t (Suc 0) = 0x42 \<and> t 2 = 0x43 \<and> t 3 = 0 \<and> 3 \<le> max_size"
  have m: "map t [0..<3] = [0x41, 0x42, 0x43]"
    using h by (simp add: upt_rec numeral_2_eq_2)
  have nz: "\<forall>i<3. t i \<noteq> 0"
  proof (intro allI impI)
    fix i :: nat
    assume "i < 3"
    then have "i = 0 \<or> i = Suc 0 \<or> i = 2" by arith
    with h show "t i \<noteq> 0" by auto
  qed
  have bs: "standard_utf8 (map t [0..<3]) = Some [0x41, 0x42, 0x43]"
    unfolding m by (simp add: standard_utf8_def utf8_encode_def utf8_encode_cp_def is_high_def is_low_def)
  have "Utf8FromUtf16_run WideCharToMultiByte max_size (Some t) =
           (if (3::nat) = 0 then Ret_empty else Ret_converted (of_nat (length [0x41, 0x42, 0x43 :: byte])),
            [0x41, 0x42, 0x43])"
    using nz bs h by (intro run_well_formed) simp_all
  then show "Utf8FromUtf16 WideCharToMultiByte max_size (Some t) = [0x41, 0x42, 0x43]"
    by (simp add: Utf8FromUtf16_def)
qed

theorem Utf8FromUtf16_standard_encoding_witness:
  "Utf8FromUtf16 WideCharToMultiByte 4294967295
     (Some (\<lambda>i. if i < 5 then [0x41, 0xE9, 0x20AC, 0xD83D, 0xDE00] ! i else 0))
     = [0x41, 0xC3, 0xA9, 0xE2, 0x82, 0xAC, 0xF0, 0x9F, 0x98, 0x80] \<and>
   Utf8FromUtf16 WideCharToMultiByte 4294967295
     (Some (\<lambda>i. if i < 3 then [0x41, 0x42, 0x43] ! i else 0))
     = [0x41, 0x42, 0x43]"
proof -
  let ?s = "\<lambda>i::nat. if i < 5 then [0x41, 0xE9, 0x20AC, 0xD83D, 0xDE00 :: wchar_t] ! i else 0"
  let ?t = "\<lambda>i::nat. if i < 3 then [0x41, 0x42, 0x43 :: wchar_t] ! i else 0"
  have m: "map ?s [0..<5] = [0x41, 0xE9, 0x20AC, 0xD83D, 0xDE00]"
    by (simp add: upt_rec)
  have nz: "\<forall>i<5. ?s i \<noteq> 0"
  proof (intro allI impI)
    fix i :: nat
    assume "i < 5"
    then have "i = 0 \<or> i = 1 \<or> i = 2 \<or> i = 3 \<or> i = 4" by arith
    then show "?s i \<noteq> 0" by auto
  qed
  have d: "utf16_decode [0x41, 0xE9, 0x20AC, 0xD83D, 0xDE00] = Some [0x41, 0xE9, 0x20AC, 0x1F600]"
    by (simp add: is_high_def is_low_def)
  have wf: "well_formed_utf16 (map ?s [0..<5])"
    unfolding m well_formed_iff_decodes d by simp
  have e: "standard_utf8 (map ?s [0..<5]) = Some [0x41, 0xC3, 0xA9, 0xE2, 0x82, 0xAC, 0xF0, 0x9F, 0x98, 0x80]"
    unfolding m standard_utf8_def d by (simp add: utf8_encode_def utf8_encode_cp_def)
  have k: "5 < unat kMaxUtf16Scan" by (simp add: unat_kMaxUtf16Scan)
  show ?thesis
    using Utf8FromUtf16_standard_encoding [of 5 ?s 4294967295 ?t] k nz wf e
    by simp
qed

lemma run_all:
  "Utf8FromUtf16_run WideCharToMultiByte max_size (Some s) =
     (let n = unat (safe_wcsnlen (Some s) kMaxUtf16Scan)
      in if n = 0 then (Ret_empty, [])
         else if n = unat kMaxUtf16Scan then (Ret_unterminated, [])
         else case standard_utf8 (map s [0..<n]) of
                None \<Rightarrow> (Ret_size_query, [])
              | Some bs \<Rightarrow>
                  if max_size < length bs then (Ret_size_query, [])
                  else (Ret_converted (of_nat (length bs)), bs))"
proof -
  let ?wlen = "safe_wcsnlen (Some s) kMaxUtf16Scan"
  consider "unat ?wlen = 0" | "unat ?wlen = unat kMaxUtf16Scan"
    | "0 < unat ?wlen" "unat ?wlen \<noteq> unat kMaxUtf16Scan"
    by auto
  then show ?thesis
  proof cases
    case 1
    then have "?wlen = 0" by (simp add: unat_eq_0)
    then have "Utf8FromUtf16_run WideCharToMultiByte max_size (Some s) = (Ret_empty, [])"
      by (rule run_wlen_zero)
    with 1 show ?thesis by (simp add: Let_def)
  next
    case 2
    then have e: "?wlen = kMaxUtf16Scan" by (simp only: word_unat_eq_iff)
    have "kMaxUtf16Scan \<noteq> 0" by (simp add: kMaxUtf16Scan_value)
    then have "Utf8FromUtf16_run WideCharToMultiByte max_size (Some s) = (Ret_unterminated, [])"
      using e by (simp add: Utf8FromUtf16_run_def)
    moreover have "unat kMaxUtf16Scan \<noteq> 0" by (simp add: unat_kMaxUtf16Scan)
    ultimately show ?thesis using 2 by (simp add: Let_def)
  next
    case 3
    have "?wlen \<le> kMaxUtf16Scan" by (rule safe_wcsnlen_le)
    then have "unat ?wlen \<le> unat kMaxUtf16Scan" by (simp only: word_le_nat_alt)
    with 3(2) have "unat ?wlen < unat kMaxUtf16Scan" by simp
    then have "unat ?wlen < 2 ^ 20" by (simp add: unat_kMaxUtf16Scan)
    with 3(1) have "Utf8FromUtf16_run WideCharToMultiByte max_size (Some s) =
       (case standard_utf8 (map s [0..<unat ?wlen]) of
          None \<Rightarrow> (Ret_size_query, [])
        | Some bs \<Rightarrow>
            if max_size < length bs then (Ret_size_query, [])
            else (Ret_converted (of_nat (length bs)), bs))"
      by (intro run_terminated refl)
    moreover from 3 have "unat ?wlen \<noteq> 0" by simp
    ultimately show ?thesis using 3(2) by (simp add: Let_def)
  qed
qed

text \<open>
  Claim C4. A terminated wide string (length \<open>L\<close> below \<open>kMaxUtf16Scan\<close>) that holds an
  unpaired surrogate, the only kind of invalid code unit in UTF-16, yields the empty
  string: the size query fails and the function leaves by the \<open>return\<close> of line 94.
  No placeholder is ever substituted: on every input the result is either empty or
  exactly the standard encoding of the scanned elements. The primitive is the model
  \<open>WideCharToMultiByte\<close>.
\<close>

theorem Utf8FromUtf16_rejects_unpaired:
  "(L < unat kMaxUtf16Scan \<and> (\<forall>i<L. s i \<noteq> 0) \<and> s L = 0 \<and>
    (\<exists>i<L. unpaired_at (map s [0..<L]) i) \<longrightarrow>
      Utf8FromUtf16 WideCharToMultiByte max_size (Some s) = [] \<and>
      Utf8FromUtf16_run WideCharToMultiByte max_size (Some s) = (Ret_size_query, [])) \<and>
   (Utf8FromUtf16 WideCharToMultiByte max_size p = [] \<or>
    (\<exists>t. p = Some t \<and>
       standard_utf8 (map t [0..<unat (safe_wcsnlen p kMaxUtf16Scan)])
         = Some (Utf8FromUtf16 WideCharToMultiByte max_size p)))"
proof (intro conjI impI)
  assume h: "L < unat kMaxUtf16Scan \<and> (\<forall>i<L. s i \<noteq> 0) \<and> s L = 0 \<and>
    (\<exists>i<L. unpaired_at (map s [0..<L]) i)"
  then have L: "L < 2 ^ 20" by (simp add: unat_kMaxUtf16Scan)
  from h have "\<exists>i<length (map s [0..<L]). unpaired_at (map s [0..<L]) i" by simp
  then have "utf16_decode (map s [0..<L]) = None" by (simp only: utf16_decode_None_iff)
  then have "standard_utf8 (map s [0..<L]) = None" by (simp add: standard_utf8_def)
  with L h show r: "Utf8FromUtf16_run WideCharToMultiByte max_size (Some s) = (Ret_size_query, [])"
    by (intro run_ill_formed) simp_all
  then show "Utf8FromUtf16 WideCharToMultiByte max_size (Some s) = []"
    by (simp add: Utf8FromUtf16_def)
next
  show "Utf8FromUtf16 WideCharToMultiByte max_size p = [] \<or>
    (\<exists>t. p = Some t \<and>
       standard_utf8 (map t [0..<unat (safe_wcsnlen p kMaxUtf16Scan)])
         = Some (Utf8FromUtf16 WideCharToMultiByte max_size p))"
  proof (cases p)
    case None
    then show ?thesis by (simp add: Utf8FromUtf16_def Utf8FromUtf16_run_def)
  next
    case (Some t)
    show ?thesis unfolding Some Utf8FromUtf16_def run_all
      by (simp add: Let_def split: option.splits)
  qed
qed

theorem Utf8FromUtf16_rejects_unpaired_witness:
  "Utf8FromUtf16 WideCharToMultiByte 4294967295
     (Some (\<lambda>i. if i < 3 then [0x41, 0xD83D, 0x42] ! i else 0)) = [] \<and>
   Utf8FromUtf16_run WideCharToMultiByte 4294967295
     (Some (\<lambda>i. if i < 3 then [0x41, 0xD83D, 0x42] ! i else 0)) = (Ret_size_query, [])"
proof -
  let ?s = "\<lambda>i::nat. if i < 3 then [0x41, 0xD83D, 0x42 :: wchar_t] ! i else 0"
  have m: "map ?s [0..<3] = [0x41, 0xD83D, 0x42]"
    by (simp add: upt_rec)
  have nz: "\<forall>i<3. ?s i \<noteq> 0"
  proof (intro allI impI)
    fix i :: nat
    assume "i < 3"
    then have "i = 0 \<or> i = 1 \<or> i = 2" by arith
    then show "?s i \<noteq> 0" by auto
  qed
  have "unpaired_at (map ?s [0..<3]) 1"
    unfolding m by (simp add: unpaired_at_def is_high_def is_low_def)
  then have u: "\<exists>i<3. unpaired_at (map ?s [0..<3]) i" by (intro exI [of _ 1]) simp
  have k: "3 < unat kMaxUtf16Scan" by (simp add: unat_kMaxUtf16Scan)
  show ?thesis
    using Utf8FromUtf16_rejects_unpaired [of 3 ?s 4294967295] k nz u
    by simp
qed

section \<open>The second pass\<close>





text \<open>
  With the model of the primitive the two passes report the same count, so there the
  length returned is also the count of the second pass.
\<close>

lemma model_passes_agree:
  assumes "fst (WideCharToMultiByte src cch (Some buf) cb) = c" and "c \<noteq> 0" and "cb \<noteq> 0"
  shows "fst (WideCharToMultiByte src cch None 0) = c"
  using assms
  by (auto simp: WideCharToMultiByte_def split: if_splits option.splits)

section \<open>Bounded reads\<close>

text \<open>
  For a primitive that reads only the \<open>cchWideChar\<close> units it is given, the result and
  the \<open>return\<close> taken depend on nothing but the first \<open>kMaxUtf16Scan\<close> elements behind
  the pointer.
\<close>

lemma WideCharToMultiByte_reads_counted:
  assumes "\<forall>i < unat n. a i = b i"
  shows "WideCharToMultiByte a n dst cb = WideCharToMultiByte b n dst cb"
proof -
  have e: "map a [0..<unat n] = map b [0..<unat n]" using assms by simp
  show ?thesis unfolding WideCharToMultiByte_def e by (rule refl)
qed

lemma safe_wcsnlen_cong:
  assumes "\<forall>i < unat mx. s i = t i"
  shows "safe_wcsnlen (Some s) mx = safe_wcsnlen (Some t) mx"
proof -
  have "map s [0..<unat mx] = map t [0..<unat mx]" using assms by simp
  then have "unat (safe_wcsnlen (Some s) mx) = unat (safe_wcsnlen (Some t) mx)"
    by (simp only: unat_safe_wcsnlen)
  then show ?thesis by (simp only: word_unat_eq_iff)
qed

lemma Utf8FromUtf16_reads_within_bound:
  assumes reads: "\<forall>a b n dst cb. (\<forall>i < unat n. a i = b i) \<longrightarrow> W a n dst cb = W b n dst cb"
    and same: "\<forall>i < unat kMaxUtf16Scan. s i = t i"
  shows "Utf8FromUtf16_run W max_size (Some s) = Utf8FromUtf16_run W max_size (Some t)"
proof -
  let ?wlen = "safe_wcsnlen (Some s) kMaxUtf16Scan"
  have w: "safe_wcsnlen (Some t) kMaxUtf16Scan = ?wlen"
    using same by (rule safe_wcsnlen_cong [symmetric])
  have le: "?wlen \<le> kMaxUtf16Scan" by (rule safe_wcsnlen_le)
  then have "unat (ucast ?wlen :: c_int) = unat ?wlen" by (rule input_length_exact)
  moreover from le have "unat ?wlen \<le> unat kMaxUtf16Scan" by (simp only: word_le_nat_alt)
  ultimately have "\<forall>i < unat (ucast ?wlen :: c_int). s i = t i" using same by simp
  with reads have "W s (ucast ?wlen) dst cb = W t (ucast ?wlen) dst cb" for dst cb
    by blast
  then show ?thesis
    by (simp add: Utf8FromUtf16_run_def w Let_def)
qed

section \<open>The reference decoder inverts the reference encoder\<close>

lemma unat_byte_of_nat: "n < 256 \<Longrightarrow> unat (of_nat n :: byte) = n"
  by (simp add: unat_of_nat)

lemma mod_64_le: "(n::nat) mod 0x40 \<le> 63"
proof -
  have "n mod 0x40 < 0x40" by simp
  then show ?thesis by linarith
qed

lemma split2: "(c::nat) div 0x40 * 0x40 + c mod 0x40 = c"
  by simp

lemma split3: "(c::nat) div 0x1000 * 0x1000 + c div 0x40 mod 0x40 * 0x40 + c mod 0x40 = c"
proof -
  have "c div 0x1000 = c div 0x40 div 0x40" by (simp add: div_mult2_eq)
  then have "c div 0x1000 * 0x1000 + c div 0x40 mod 0x40 * 0x40 = c div 0x40 * 0x40"
    using div_mult_mod_eq [of "c div 0x40" "0x40"] by linarith
  then show ?thesis using div_mult_mod_eq [of c "0x40"] by linarith
qed

lemma split4:
  "(c::nat) div 0x40000 * 0x40000 + c div 0x1000 mod 0x40 * 0x1000
     + c div 0x40 mod 0x40 * 0x40 + c mod 0x40 = c"
proof -
  have "c div 0x40000 = c div 0x1000 div 0x40" by (simp add: div_mult2_eq)
  then have "c div 0x40000 * 0x40000 + c div 0x1000 mod 0x40 * 0x1000 = c div 0x1000 * 0x1000"
    using div_mult_mod_eq [of "c div 0x1000" "0x40"] by linarith
  then show ?thesis using split3 [of c] by linarith
qed

lemma decode_one:
  assumes "c < 0x80"
  shows "utf8_decode (utf8_encode_cp c @ bs) = map_option ((#) c) (utf8_decode bs)"
  using assms by (simp add: utf8_encode_cp_def unat_byte_of_nat)

lemma decode_two:
  assumes "0x80 \<le> c" and "c < 0x800"
  shows "utf8_decode (utf8_encode_cp c @ bs) = map_option ((#) c) (utf8_decode bs)"
proof -
  from assms have d: "2 \<le> c div 0x40" "c div 0x40 < 0x20" by simp_all
  have m: "c mod 0x40 < 0x40" by simp
  have b0: "unat (of_nat (0xC0 + c div 0x40) :: byte) = 0xC0 + c div 0x40"
    using d by (intro unat_byte_of_nat) simp
  have b1: "unat (of_nat (0x80 + c mod 0x40) :: byte) = 0x80 + c mod 0x40"
    using m by (intro unat_byte_of_nat) simp
  have e: "utf8_encode_cp c = [of_nat (0xC0 + c div 0x40), of_nat (0x80 + c mod 0x40)]"
    using assms by (simp add: utf8_encode_cp_def)
  show ?thesis unfolding e using d m split2 [of c]
    by (simp add: b0 b1 is_cont_def mod_64_le del: of_nat_add)
qed

lemma decode_three:
  assumes "0x800 \<le> c" and "c < 0x10000" and "\<not> (0xD800 \<le> c \<and> c \<le> 0xDFFF)"
  shows "utf8_decode (utf8_encode_cp c @ bs) = map_option ((#) c) (utf8_decode bs)"
proof -
  from assms have d: "c div 0x1000 < 0x10" by simp
  have m1: "c div 0x40 mod 0x40 < 0x40" and m: "c mod 0x40 < 0x40" by simp_all
  have b0: "unat (of_nat (0xE0 + c div 0x1000) :: byte) = 0xE0 + c div 0x1000"
    using d by (intro unat_byte_of_nat) simp
  have b1: "unat (of_nat (0x80 + c div 0x40 mod 0x40) :: byte) = 0x80 + c div 0x40 mod 0x40"
    using m1 by (intro unat_byte_of_nat) simp
  have b2: "unat (of_nat (0x80 + c mod 0x40) :: byte) = 0x80 + c mod 0x40"
    using m by (intro unat_byte_of_nat) simp
  have e: "utf8_encode_cp c = [of_nat (0xE0 + c div 0x1000), of_nat (0x80 + c div 0x40 mod 0x40),
         of_nat (0x80 + c mod 0x40)]"
    using assms by (simp add: utf8_encode_cp_def)
  show ?thesis unfolding e using assms d m1 m split3 [of c]
    by (simp add: b0 b1 b2 is_cont_def Let_def mod_64_le del: of_nat_add)
qed

lemma decode_four:
  assumes "0x10000 \<le> c" and "c \<le> 0x10FFFF"
  shows "utf8_decode (utf8_encode_cp c @ bs) = map_option ((#) c) (utf8_decode bs)"
proof -
  from assms have d: "c div 0x40000 < 5" by simp
  have m2: "c div 0x1000 mod 0x40 < 0x40" and m1: "c div 0x40 mod 0x40 < 0x40"
    and m: "c mod 0x40 < 0x40" by simp_all
  have b0: "unat (of_nat (0xF0 + c div 0x40000) :: byte) = 0xF0 + c div 0x40000"
    using d by (intro unat_byte_of_nat) simp
  have b1: "unat (of_nat (0x80 + c div 0x1000 mod 0x40) :: byte) = 0x80 + c div 0x1000 mod 0x40"
    using m2 by (intro unat_byte_of_nat) simp
  have b2: "unat (of_nat (0x80 + c div 0x40 mod 0x40) :: byte) = 0x80 + c div 0x40 mod 0x40"
    using m1 by (intro unat_byte_of_nat) simp
  have b3: "unat (of_nat (0x80 + c mod 0x40) :: byte) = 0x80 + c mod 0x40"
    using m by (intro unat_byte_of_nat) simp
  have e: "utf8_encode_cp c = [of_nat (0xF0 + c div 0x40000), of_nat (0x80 + c div 0x1000 mod 0x40),
         of_nat (0x80 + c div 0x40 mod 0x40), of_nat (0x80 + c mod 0x40)]"
    using assms by (simp add: utf8_encode_cp_def)
  show ?thesis unfolding e using assms d m2 m1 m split4 [of c]
    by (simp add: b0 b1 b2 b3 is_cont_def Let_def mod_64_le del: of_nat_add)
qed

lemma utf8_decode_encode_cp:
  assumes "c < 0xD800 \<or> (0xE000 \<le> c \<and> c \<le> 0x10FFFF)"
  shows "utf8_decode (utf8_encode_cp c @ bs) = map_option ((#) c) (utf8_decode bs)"
proof -
  consider "c < 0x80" | "0x80 \<le> c" "c < 0x800" | "0x800 \<le> c" "c < 0x10000" | "0x10000 \<le> c"
    by linarith
  then show ?thesis
  proof cases
    case 1
    then show ?thesis by (rule decode_one)
  next
    case 2
    then show ?thesis by (rule decode_two)
  next
    case 3
    moreover from assms have "\<not> (0xD800 \<le> c \<and> c \<le> 0xDFFF)" by linarith
    ultimately show ?thesis by (rule decode_three)
  next
    case 4
    moreover from assms 4 have "c \<le> 0x10FFFF" by linarith
    ultimately show ?thesis by (rule decode_four)
  qed
qed

lemma utf16_decode_scalar:
  "utf16_decode us = Some cs \<Longrightarrow> \<forall>c\<in>set cs. c < 0xD800 \<or> (0xE000 \<le> c \<and> c \<le> 0x10FFFF)"
proof (induction us arbitrary: cs rule: utf16_decode.induct)
  case 1
  then show ?case by simp
next
  case (2 u)
  have "unat u < 0x10000" using unsigned_less [of u] by simp
  with 2 show ?case by (auto simp: is_high_def is_low_def split: if_splits)
next
  case (3 u l us)
  show ?case
  proof (cases "is_high u")
    case True
    with "3.prems" obtain cs' where low: "is_low l" and d: "utf16_decode us = Some cs'"
      and cs: "cs = (0x10000 + (unat u - 0xD800) * 0x400 + (unat l - 0xDC00)) # cs'"
      by (auto split: if_splits)
    from True low have "unat u - 0xD800 \<le> 0x3FF" and "unat l - 0xDC00 \<le> 0x3FF"
      unfolding is_high_def is_low_def by linarith+
    then have "0x10000 + (unat u - 0xD800) * 0x400 + (unat l - 0xDC00) \<le> 0x10FFFF"
      by linarith
    with "3.IH"(1) [OF True low d] show ?thesis unfolding cs by simp
  next
    case False
    with "3.prems" obtain cs' where nl: "\<not> is_low u" and d: "utf16_decode (l # us) = Some cs'"
      and cs: "cs = unat u # cs'"
      by (auto split: if_splits)
    have "unat u < 0x10000" using unsigned_less [of u] by simp
    with False nl have "unat u < 0xD800 \<or> (0xE000 \<le> unat u \<and> unat u \<le> 0x10FFFF)"
      by (auto simp: is_high_def is_low_def)
    with "3.IH"(2) [OF False nl d] show ?thesis unfolding cs by simp
  qed
qed

lemma utf8_decode_encode:
  "\<forall>c\<in>set cs. c < 0xD800 \<or> (0xE000 \<le> c \<and> c \<le> 0x10FFFF) \<Longrightarrow>
     utf8_decode (utf8_encode cs) = Some cs"
proof (induction cs)
  case Nil
  show ?case by (simp add: utf8_encode_def)
next
  case (Cons c cs)
  then have "utf8_decode (utf8_encode_cp c @ utf8_encode cs) = map_option ((#) c) (utf8_decode (utf8_encode cs))"
    by (intro utf8_decode_encode_cp) simp
  with Cons show ?case by (simp add: utf8_encode_Cons)
qed

lemma standard_utf8_decodes:
  "standard_utf8 us = Some bs \<Longrightarrow> utf8_decode bs = utf16_decode us"
  using utf16_decode_scalar [of us] utf8_decode_encode
  by (auto simp: standard_utf8_def)

lemma Utf8FromUtf16_decodes:
  assumes "L < unat kMaxUtf16Scan" and "\<forall>i<L. s i \<noteq> 0" and "s L = 0"
    and "well_formed_utf16 (map s [0..<L])" and "3 * L \<le> max_size"
  shows "utf8_decode (Utf8FromUtf16 WideCharToMultiByte max_size (Some s))
           = utf16_decode (map s [0..<L])"
proof -
  from assms(1) have L: "L < 2 ^ 20" by (simp add: unat_kMaxUtf16Scan)
  from assms(4) obtain bs where bs: "standard_utf8 (map s [0..<L]) = Some bs"
    using standard_utf8_well_formed by blast
  have "length bs \<le> 3 * L" using standard_utf8_length(1) [OF bs] by simp
  with assms(5) have "length bs \<le> max_size" by simp
  with L assms(2,3) bs have "Utf8FromUtf16_run WideCharToMultiByte max_size (Some s) =
           (if L = 0 then Ret_empty else Ret_converted (of_nat (length bs)), bs)"
    by (intro run_well_formed) simp_all
  then have "Utf8FromUtf16 WideCharToMultiByte max_size (Some s) = bs"
    by (simp add: Utf8FromUtf16_def)
  with bs show ?thesis by (simp add: standard_utf8_decodes)
qed

section \<open>Round trip on ASCII\<close>

lemma ascii_unit:
  fixes u :: wchar_t
  assumes "u < 0x80"
  shows "unat u < 0x80" and "\<not> is_high u" and "\<not> is_low u"
    and "unat (ucast u :: byte) = unat u" and "utf8_encode_cp (unat u) = [ucast u]"
proof -
  from assms show a: "unat u < 0x80" by (simp add: word_less_nat_alt)
  then show "\<not> is_high u" and "\<not> is_low u" by (simp_all add: is_high_def is_low_def)
  from a have "unat u < 2 ^ 8" by simp
  then show "unat (ucast u :: byte) = unat u"
    by (simp add: unsigned_ucast_eq take_bit_nat_eq_self)
  from a show "utf8_encode_cp (unat u) = [ucast u]" by (simp add: utf8_encode_cp_def)
qed

lemma ascii_utf16_decode:
  "\<forall>u\<in>set us. u < 0x80 \<Longrightarrow> utf16_decode us = Some (map unat us)"
  by (induction us rule: utf16_decode.induct) (simp_all add: ascii_unit)

lemma ascii_utf8_encode:
  "\<forall>u\<in>set us. u < 0x80 \<Longrightarrow> utf8_encode (map unat us) = map ucast (us :: wchar_t list)"
  by (induction us) (simp_all add: utf8_encode_def ascii_unit)

lemma ascii_standard_utf8:
  "\<forall>u\<in>set us. u < 0x80 \<Longrightarrow> standard_utf8 us = Some (map ucast us)"
  by (simp add: standard_utf8_def ascii_utf16_decode ascii_utf8_encode)

lemma ascii_utf8_decode:
  "\<forall>u\<in>set us. u < 0x80 \<Longrightarrow> utf8_decode (map ucast us) = Some (map unat (us :: wchar_t list))"
  by (induction us) (simp_all add: ascii_unit)

text \<open>
  Claim C9. For a terminated ASCII wide string of length \<open>L\<close> below \<open>kMaxUtf16Scan\<close>
  (every element before the terminator is in \<open>01..7F\<close>), decoding the bytes returned
  by \<open>Utf8FromUtf16\<close> as UTF-8 gives back the characters of the string. The primitive is
  the model \<open>WideCharToMultiByte\<close> and the string type can hold \<open>L\<close> bytes.
\<close>

theorem Utf8FromUtf16_ascii_roundtrip:
  assumes "L < unat kMaxUtf16Scan" and "\<forall>i<L. s i \<noteq> 0 \<and> s i < 0x80" and "s L = 0"
    and "L \<le> max_size"
  shows "utf8_decode (Utf8FromUtf16 WideCharToMultiByte max_size (Some s))
           = Some (map (\<lambda>i. unat (s i)) [0..<L])"
proof -
  let ?us = "map s [0..<L]"
  from assms(1) have L: "L < 2 ^ 20" by (simp add: unat_kMaxUtf16Scan)
  have ascii: "\<forall>u\<in>set ?us. u < 0x80" using assms(2) by simp
  then have e: "standard_utf8 ?us = Some (map ucast ?us)" by (rule ascii_standard_utf8)
  have "Utf8FromUtf16_run WideCharToMultiByte max_size (Some s) =
          (if L = 0 then Ret_empty else Ret_converted (of_nat (length (map ucast ?us :: byte list))),
           map ucast ?us)"
    using L assms(2,3) e assms(4) by (intro run_well_formed) simp_all
  then have "Utf8FromUtf16 WideCharToMultiByte max_size (Some s) = map ucast ?us"
    by (simp add: Utf8FromUtf16_def)
  then have "utf8_decode (Utf8FromUtf16 WideCharToMultiByte max_size (Some s)) = Some (map unat ?us)"
    using ascii by (simp only: ascii_utf8_decode)
  then show ?thesis by (simp add: comp_def)
qed

theorem Utf8FromUtf16_ascii_roundtrip_witness:
  "utf8_decode (Utf8FromUtf16 WideCharToMultiByte 4294967295
     (Some (\<lambda>i. if i < 5 then [0x48, 0x65, 0x6C, 0x6C, 0x6F] ! i else 0)))
   = Some [0x48, 0x65, 0x6C, 0x6C, 0x6F]"
proof -
  let ?s = "\<lambda>i::nat. if i < 5 then [0x48, 0x65, 0x6C, 0x6C, 0x6F :: wchar_t] ! i else 0"
  have a: "\<forall>i<5. ?s i \<noteq> 0 \<and> ?s i < 0x80"
  proof (intro allI impI)
    fix i :: nat
    assume "i < 5"
    then have "i = 0 \<or> i = 1 \<or> i = 2 \<or> i = 3 \<or> i = 4" by arith
    then show "?s i \<noteq> 0 \<and> ?s i < 0x80" by auto
  qed
  have k: "5 < unat kMaxUtf16Scan" by (simp add: unat_kMaxUtf16Scan)
  have m: "map (\<lambda>i. unat (?s i)) [0..<5] = [0x48, 0x65, 0x6C, 0x6C, 0x6F]"
    by (simp add: upt_rec)
  show ?thesis
    using Utf8FromUtf16_ascii_roundtrip [of 5 ?s 4294967295, OF k a] m
    by simp
qed

end
